theory Spec2Isabelle
  imports Complex_Main "HOL-Library.Signed_Division"
begin

unbundle bit_operations_syntax

section \<open>Data model (tutor.h)\<close>

text \<open>
  The C \<open>int\<close> fields and arguments are modelled as \<open>int\<close>: the claims below do not
  depend on 32-bit overflow. \<open>struct timespec\<close> keeps its two signed fields.
\<close>

record timespec =
  tv_sec :: int
  tv_nsec :: int

definition ts_zero :: timespec where
  "ts_zero = \<lparr>tv_sec = 0, tv_nsec = 0\<rparr>"

record tnote =
  velo :: int
  channel :: int
  future :: int
  ts :: timespec

section \<open>The serial link and its operating-system environment\<close>

text \<open>
  \<open>READ\<close>, \<open>WRITE\<close> and \<open>open\<close> are system calls: what they return is decided by the
  device. The environment is a script of the outcomes of the successive calls. When
  the read script is used up the device stays silent (every later read times out and
  returns 0); when the write script is used up every later write accepts all its bytes.
  \<open>wire\<close> collects the bytes the device has accepted.
\<close>

datatype read_result = ReadFail | ReadTimeout | ReadByte char

datatype open_result = Open int bool
  \<comment> \<open>the descriptor returned by \<open>open()\<close>, and whether the termios calls succeed\<close>

record port =
  tutorSerial :: int
  opens :: "open_result list"
  reads :: "read_result list"
  writes :: "int list"
  wire :: string

datatype fault =
    NoReturn        \<comment> \<open>a loop that waits for the device never ends\<close>
  | BufferOverrun   \<comment> \<open>a store past the end of a command buffer\<close>

definition and_then :: "fault + 'a \<Rightarrow> ('a \<Rightarrow> fault + 'b) \<Rightarrow> fault + 'b" where
  "and_then m f = (case m of Inl e \<Rightarrow> Inl e | Inr x \<Rightarrow> f x)"

lemma and_then_Inr [simp]: "and_then (Inr x) f = f x"
  by (simp add: and_then_def)

lemma and_then_Inl [simp]: "and_then (Inl e) f = Inl e"
  by (simp add: and_then_def)

lemma and_then_eq_Inr: "and_then m f = Inr y \<longleftrightarrow> (\<exists>x. m = Inr x \<and> f x = Inr y)"
  by (cases m) simp_all

lemma and_then_cong [fundef_cong]:
  "m = m' \<Longrightarrow> (\<And>x. m' = Inr x \<Longrightarrow> f x = f' x) \<Longrightarrow> and_then m f = and_then m' f'"
  by (cases m') simp_all

definition INVALID_SERIAL :: int where
  "INVALID_SERIAL = -1"

text \<open>\<open>READ(fd, &ch, 1)\<close>: the returned count and the byte stored, if any.\<close>

definition READ :: "port \<Rightarrow> (int \<times> char option) \<times> port" where
  "READ p =
     (if tutorSerial p = INVALID_SERIAL then ((-1, None), p)
      else case reads p of
          [] \<Rightarrow> ((0, None), p)
        | ReadFail # rs \<Rightarrow> ((-1, None), p\<lparr>reads := rs\<rparr>)
        | ReadTimeout # rs \<Rightarrow> ((0, None), p\<lparr>reads := rs\<rparr>)
        | ReadByte c # rs \<Rightarrow> ((1, Some c), p\<lparr>reads := rs\<rparr>))"

text \<open>\<open>WRITE(fd, buf, count)\<close>: the returned count; the accepted bytes go on the wire.\<close>

definition WRITE :: "string \<Rightarrow> int \<Rightarrow> port \<Rightarrow> int \<times> port" where
  "WRITE buf count p =
     (if tutorSerial p = INVALID_SERIAL then (-1, p)
      else case writes p of
          [] \<Rightarrow> (count, p\<lparr>wire := wire p @ take (nat count) buf\<rparr>)
        | w # ws \<Rightarrow>
            if w < 0 then (-1, p\<lparr>writes := ws\<rparr>)
            else let n = min w count
                 in (n, p\<lparr>writes := ws, wire := wire p @ take (nat n) buf\<rparr>))"

lemma reads_WRITE [simp]: "reads (snd (WRITE buf count p)) = reads p"
  by (simp add: WRITE_def Let_def split: list.split)

lemma tutorSerial_WRITE [simp]: "tutorSerial (snd (WRITE buf count p)) = tutorSerial p"
  by (simp add: WRITE_def Let_def split: list.split)

lemma READ_consumes:
  "tutorSerial p \<noteq> INVALID_SERIAL \<Longrightarrow> reads p \<noteq> [] \<Longrightarrow>
   length (reads (snd (READ p))) < length (reads p)"
  by (simp add: READ_def split: list.split read_result.split)

subsection \<open>checkSerial (the POSIX variant)\<close>

text \<open>
  The loop that waits for the 25 bytes of the greeting
  \<^verbatim>\<open>PianoTutor v1.0 is ready!\<close>.
\<close>

function greeting :: "int \<Rightarrow> port \<Rightarrow> fault + (bool \<times> port)" where
  "greeting to_read p =
     (if to_read > 0 then
        (if tutorSerial p \<noteq> INVALID_SERIAL \<and> reads p = [] then Inl NoReturn
         else let len = fst (fst (READ p)); p1 = snd (READ p)
              in if len < 0 then Inr (False, p1)
                 else greeting (to_read - len) p1)
      else Inr (True, p))"
  by pat_completeness auto
termination
proof (relation "measure (\<lambda>(to_read, p). length (reads p))")
  show "wf (measure (\<lambda>(to_read, p). length (reads p)))" by simp
next
  fix to_read :: int and p :: port and len p1
  assume "\<not> (tutorSerial p \<noteq> INVALID_SERIAL \<and> reads p = [])"
    and len: "len = fst (fst (READ p))" and p1: "p1 = snd (READ p)"
    and "\<not> len < 0"
  then have "tutorSerial p \<noteq> INVALID_SERIAL \<and> reads p \<noteq> []"
    by (auto simp: READ_def)
  then show "((to_read - len, p1), (to_read, p)) \<in> measure (\<lambda>(to_read, p). length (reads p))"
    using READ_consumes [of p] p1 by simp
qed

declare greeting.simps [simp del]

definition checkSerial :: "port \<Rightarrow> fault + (bool \<times> port)" where
  "checkSerial p =
     (if tutorSerial p \<noteq> INVALID_SERIAL then Inr (True, p)
      else case opens p of
          [] \<Rightarrow> Inr (False, p)
        | Open fd configured # os \<Rightarrow>
            let p1 = p\<lparr>tutorSerial := fd, opens := os\<rparr>
            in if fd = INVALID_SERIAL then Inr (False, p1)
               else if \<not> configured then Inr (False, p1)
               else greeting 25 p1)"

subsection \<open>safe_write\<close>

definition ping_str :: string where
  "ping_str = ''P\<newline>''"

text \<open>
  The handshake \<^verbatim>\<open>do { WRITE; bytes_read = READ; if (pong_char != 'P') continue; } while (bytes_read != 1);\<close>.
  In a \<^verbatim>\<open>do ... while\<close> loop \<^verbatim>\<open>continue\<close> jumps to the test of the loop condition, so
  both branches of the inner \<^verbatim>\<open>if\<close> go on to the same test. With an invalid
  descriptor every read fails, and with the read script used up every read times out: in
  both cases \<open>bytes_read\<close> is never 1 and the loop does not end.
\<close>

function handshake :: "char \<Rightarrow> port \<Rightarrow> fault + (char \<times> port)" where
  "handshake pong_char p =
     (if tutorSerial p = INVALID_SERIAL \<or> reads p = [] then Inl NoReturn
      else let p1 = snd (WRITE ping_str 2 p);
               bytes_read = fst (fst (READ p1));
               pong_char' = (case snd (fst (READ p1)) of Some c \<Rightarrow> c | None \<Rightarrow> pong_char);
               p2 = snd (READ p1)
           in if pong_char' \<noteq> CHR ''P''
              then (if bytes_read \<noteq> 1 then handshake pong_char' p2 else Inr (pong_char', p2))
              else (if bytes_read \<noteq> 1 then handshake pong_char' p2 else Inr (pong_char', p2)))"
  by pat_completeness auto
termination
proof (relation "measure (\<lambda>(pong_char, p). length (reads p))")
  show "wf (measure (\<lambda>(pong_char, p). length (reads p)))" by simp
next
  fix pong_char :: char and p p1 p2 :: port and bytes_read :: int and pong_char' :: char
  assume ok: "\<not> (tutorSerial p = INVALID_SERIAL \<or> reads p = [])"
    and p1: "p1 = snd (WRITE ping_str 2 p)" and p2: "p2 = snd (READ p1)"
  from ok p1 have "tutorSerial p1 \<noteq> INVALID_SERIAL" "reads p1 \<noteq> []" by simp_all
  then show "((pong_char', p2), (pong_char, p)) \<in> measure (\<lambda>(pong_char, p). length (reads p))"
    using READ_consumes [of p1] p1 p2 by simp
next
  fix pong_char :: char and p p1 p2 :: port and bytes_read :: int and pong_char' :: char
  assume ok: "\<not> (tutorSerial p = INVALID_SERIAL \<or> reads p = [])"
    and p1: "p1 = snd (WRITE ping_str 2 p)" and p2: "p2 = snd (READ p1)"
  from ok p1 have "tutorSerial p1 \<noteq> INVALID_SERIAL" "reads p1 \<noteq> []" by simp_all
  then show "((pong_char', p2), (pong_char, p)) \<in> measure (\<lambda>(pong_char, p). length (reads p))"
    using READ_consumes [of p1] p1 p2 by simp
qed

declare handshake.simps [simp del]

lemma writes_greeting: "greeting n p = Inr (b, p') \<Longrightarrow> writes p' = writes p"
proof (induction n p rule: greeting.induct)
  case (1 to_read p)
  show ?case
  proof (cases "0 < to_read \<and> \<not> (tutorSerial p \<noteq> INVALID_SERIAL \<and> reads p = []) \<and> \<not> fst (fst (READ p)) < 0")
    case True
    then have "tutorSerial p \<noteq> INVALID_SERIAL" "reads p \<noteq> []"
      by (auto simp: READ_def)
    with True have "greeting (to_read - fst (fst (READ p))) (snd (READ p)) = Inr (b, p')"
      using "1.prems" by (subst (asm) greeting.simps) (simp add: Let_def)
    then have "writes p' = writes (snd (READ p))"
      using "1.IH" True by simp
    then show ?thesis
      by (simp add: READ_def split: if_splits list.splits read_result.splits)
  next
    case False
    then show ?thesis
      using "1.prems"
      by (subst (asm) greeting.simps)
         (auto simp: Let_def READ_def split: if_splits list.splits read_result.splits)
  qed
qed

lemma writes_checkSerial: "checkSerial p = Inr (b, p') \<Longrightarrow> writes p' = writes p"
  by (auto simp: checkSerial_def Let_def split: if_splits list.splits open_result.splits
      dest: writes_greeting)

lemma writes_WRITE_le: "length (writes (snd (WRITE buf count p))) \<le> length (writes p)"
  by (simp add: WRITE_def Let_def split: list.split)

lemma WRITE_progress:
  "\<not> fst (WRITE buf count p) < 0 \<Longrightarrow>
   length (writes (snd (WRITE buf count p))) < length (writes p) \<or>
   writes (snd (WRITE buf count p)) = writes p \<and> fst (WRITE buf count p) = count"
  by (simp add: WRITE_def Let_def split: list.split if_splits)

text \<open>
  The loop \<^verbatim>\<open>while (len > 0)\<close> that writes the command, with at most two attempts to
  reopen the device after a failed write.
\<close>

function write_loop :: "string \<Rightarrow> int \<Rightarrow> int \<Rightarrow> port \<Rightarrow> fault + port" where
  "write_loop data len retry p =
     (if len > 0 then
        let written = fst (WRITE data len p); p1 = snd (WRITE data len p)
        in if written < 0 then
             let p2 = p1\<lparr>tutorSerial := INVALID_SERIAL\<rparr>
             in if retry > 0
                then and_then (checkSerial p2) (\<lambda>(ok, p3). write_loop data len (retry - 1) p3)
                else Inr p2
           else write_loop (drop (nat written) data) (len - written) retry p1
      else Inr p)"
  by pat_completeness auto

termination
proof (relation "measures [\<lambda>(data, len, retry, p). length (writes p) + nat retry,
                          \<lambda>(data, len, retry, p). nat len]")
  show "wf (measures [\<lambda>(data, len, retry, p). length (writes p) + nat retry,
                      \<lambda>(data, len, retry, p). nat len])" by simp
next
  fix data :: string and len retry :: int and p p1 p2 p3 :: port and written :: int and x ok
  assume "0 < len" and w: "written = fst (WRITE data len p)" and p1: "p1 = snd (WRITE data len p)"
    and "written < 0" and p2: "p2 = p1\<lparr>tutorSerial := INVALID_SERIAL\<rparr>" and "0 < retry"
    and cs: "checkSerial p2 = Inr x" and x: "(ok, p3) = x"
  show "((data, len, retry - 1, p3), (data, len, retry, p))
        \<in> measures [\<lambda>(data, len, retry, p). length (writes p) + nat retry,
                      \<lambda>(data, len, retry, p). nat len]"
  proof -
    from cs x have "writes p3 = writes p2"
      using writes_checkSerial [of p2 ok p3] by simp
    moreover have "length (writes p2) \<le> length (writes p)"
      using writes_WRITE_le [of data len p] p1 p2 by simp
    ultimately show ?thesis using \<open>0 < retry\<close> by simp
  qed
next
  fix data :: string and len retry :: int and p p1 :: port and written :: int
  assume "0 < len" and w: "written = fst (WRITE data len p)" and p1: "p1 = snd (WRITE data len p)"
    and "\<not> written < 0"
  show "((drop (nat written) data, len - written, retry, p1), (data, len, retry, p))
        \<in> measures [\<lambda>(data, len, retry, p). length (writes p) + nat retry,
                      \<lambda>(data, len, retry, p). nat len]"
    using WRITE_progress [of data len p] \<open>0 < len\<close> \<open>\<not> written < 0\<close> w p1 by auto
qed

declare write_loop.simps [simp del]

text \<open>
  \<open>data\<close> is the whole command buffer (its length is the size of the array), so that
  the store \<^verbatim>\<open>data[len] = '\0'\<close> past its end shows as a fault.
\<close>

definition safe_write :: "string \<Rightarrow> int \<Rightarrow> bool \<Rightarrow> port \<Rightarrow> fault + port" where
  "safe_write data len flush_op p =
     and_then (handshake (CHR ''.'') p) (\<lambda>(pong_char, p1).
       if len < 0 \<or> int (length data) \<le> len then Inl BufferOverrun
       else write_loop (data[nat len := CHR 0x00]) len 2 p1)"

section \<open>The controller (class Tutor)\<close>

text \<open>
  \<open>notes\<close> is the array \<^verbatim>\<open>tnote notes[256]\<close>: every access in the source is at
  \<^verbatim>\<open>pitch & 255\<close>, so only the indices 0 to 255 of the function are ever used.
  \<open>colors\<close> has the three rows of \<open>def_colors\<close> (mistakes, even channels, odd channels),
  which \<open>setTutorLight\<close> indexes with 0, 1 and 2; the header tutor.h at hand declares
  two rows and lacks members that tutor.cpp uses (\<open>lit_until_release\<close>), so the model
  follows tutor.cpp.
  \<open>coeff\<close> is a \<^verbatim>\<open>double\<close> in the source and a real number here, and the conversion of
  the rounded value to \<^verbatim>\<open>int\<close> is taken to be in range. \<open>timers\<close> lists the delays of
  the single-shot timers handed to the event loop, each of which will call
  \<open>onFlushTimer\<close>. The mutex is not modelled: the operations run one after the other.
\<close>

record tutor =
  serialDevice :: string
  serial :: port
  "notes" :: "int \<Rightarrow> tnote"
  num_curr_events :: int
  c4light :: int
  coeff :: real
  colors :: "int \<Rightarrow> int \<Rightarrow> int"
  needs_flush :: bool
  lit_until_release :: bool
  timers :: "int list"

definition DEFAULT_SERIAL_DEVICE :: string where
  "DEFAULT_SERIAL_DEVICE = ''/dev/ttyACM0''"

definition def_colors :: "int \<Rightarrow> int \<Rightarrow> int" where
  "def_colors i j =
     (if i = 0 then (if j = 0 then 16 else 0)
      else if i = 1 then (if j = 1 then 0 else 16)
      else (if j = 0 then 0 else 16))"

text \<open>
  The constructor sets only \<open>velo\<close> of each note: the other fields keep whatever the
  memory held (\<open>garbage\<close>). The scripts of the environment come with \<open>env\<close>.
\<close>

definition Tutor :: "(int \<Rightarrow> tnote) \<Rightarrow> port \<Rightarrow> tutor" where
  "Tutor garbage env =
     \<lparr>serialDevice = DEFAULT_SERIAL_DEVICE,
      serial = env\<lparr>tutorSerial := INVALID_SERIAL\<rparr>,
      notes = (\<lambda>i. (garbage i)\<lparr>velo := -1\<rparr>),
      num_curr_events = 0,
      c4light = 71,
      coeff = -2,
      colors = def_colors,
      needs_flush = False,
      lit_until_release = False,
      timers = []\<rparr>"

subsection \<open>Command encoding\<close>

definition hex_digit :: "nat \<Rightarrow> char" where
  "hex_digit d = ''0123456789abcdef'' ! d"

fun hex_digits :: "nat \<Rightarrow> string" where
  "hex_digits n = (if n < 16 then [hex_digit n] else hex_digits (n div 16) @ [hex_digit (n mod 16)])"

declare hex_digits.simps [simp del]

text \<open>\<^verbatim>\<open>%02x\<close>: the argument read as \<^verbatim>\<open>unsigned int\<close>, at least two digits.\<close>

definition hex02 :: "int \<Rightarrow> string" where
  "hex02 x =
     (let ds = hex_digits (nat (x mod 2 ^ 32))
      in replicate (2 - length ds) (CHR ''0'') @ ds)"

definition fmt_H :: "int \<Rightarrow> int \<Rightarrow> int \<Rightarrow> int \<Rightarrow> string" where
  "fmt_H led r g b = ''H'' @ hex02 led @ hex02 r @ hex02 g @ hex02 b @ ''\<newline>''"

text \<open>
  \<^verbatim>\<open>snprintf(cmd, bound, ...)\<close> into an array of \<open>cap\<close> bytes: at most \<open>bound - 1\<close>
  characters and a NUL are stored, and the length of the whole text is returned. The
  bytes of the array that are not stored are never sent; they are NUL here.
\<close>

definition snprintf :: "nat \<Rightarrow> nat \<Rightarrow> string \<Rightarrow> string \<times> int" where
  "snprintf cap bound text =
     (let stored = take (bound - 1) text @ [CHR 0x00]
      in (stored @ replicate (cap - length stored) (CHR 0x00), int (length text)))"

subsection \<open>pitchToLight\<close>

text \<open>C's \<open>round\<close>: to the nearest integer, halfway cases away from zero.\<close>

definition c_round :: "real \<Rightarrow> int" where
  "c_round x = (if 0 \<le> x then \<lfloor>x + 1 / 2\<rfloor> else \<lceil>x - 1 / 2\<rceil>)"

definition pitchToLight :: "tutor \<Rightarrow> int \<Rightarrow> int" where
  "pitchToLight s pitch =
     (let reflight = (if pitch \<ge> 60 then c4light s else c4light s + (if coeff s > 0 then -1 else 1));
          diffpitch = (if pitch \<ge> 60 then pitch - 60 else pitch - 59);
          led = c_round (of_int diffpitch * coeff s + of_int reflight)
      in if led < 0 then 0 else if led > 255 then 255 else led)"

subsection \<open>Light commands\<close>

definition send_H :: "int \<Rightarrow> int \<Rightarrow> int \<Rightarrow> int \<Rightarrow> port \<Rightarrow> fault + port" where
  "send_H led r g b p =
     (let cmd = fst (snprintf 16 15 (fmt_H led r g b));
          cmdlen = snd (snprintf 16 15 (fmt_H led r g b))
      in safe_write cmd cmdlen False p)"

definition setTutorLight :: "int \<Rightarrow> int \<Rightarrow> int \<Rightarrow> int \<Rightarrow> tutor \<Rightarrow> fault + tutor" where
  "setTutorLight pitch vel chan fut s =
     and_then (checkSerial (serial s)) (\<lambda>(ok, p).
       if ok then
         let row = (if chan = -1 then 0 else 1 + chan smod 2);
             r = colors s row 0; g = colors s row 1; b = colors s row 2;
             r = (if fut > 0 then r sdiv 8 else r);
             g = (if fut > 0 then g sdiv 8 else g);
             b = (if fut > 0 then b sdiv 8 else b)
         in and_then (send_H (pitchToLight s pitch) r g b p)
              (\<lambda>p'. Inr (s\<lparr>serial := p', needs_flush := True\<rparr>))
       else Inr (s\<lparr>serial := p\<rparr>))"

definition clearTutorLight :: "int \<Rightarrow> tutor \<Rightarrow> fault + tutor" where
  "clearTutorLight pitch s =
     and_then (checkSerial (serial s)) (\<lambda>(ok, p).
       if ok then
         and_then (send_H (pitchToLight s pitch) 0 0 0 p)
           (\<lambda>p'. Inr (s\<lparr>serial := p', needs_flush := True\<rparr>))
       else Inr (s\<lparr>serial := p\<rparr>))"

definition setTutorLightPressed :: "int \<Rightarrow> tutor \<Rightarrow> fault + tutor" where
  "setTutorLightPressed pitch s =
     and_then (checkSerial (serial s)) (\<lambda>(ok, p).
       if ok then
         and_then (send_H (pitchToLight s pitch) 2 2 2 p)
           (\<lambda>p'. Inr (s\<lparr>serial := p', needs_flush := True\<rparr>))
       else Inr (s\<lparr>serial := p\<rparr>))"

definition flushNoLock :: "tutor \<Rightarrow> fault + tutor" where
  "flushNoLock s =
     and_then (checkSerial (serial s)) (\<lambda>(ok, p).
       if ok \<and> needs_flush s then
         and_then (safe_write (''F\<newline>'' @ [CHR 0x00, CHR 0x00]) 2 True p)
           (\<lambda>p'. Inr (s\<lparr>serial := p', needs_flush := False\<rparr>))
       else Inr (s\<lparr>serial := p\<rparr>))"

subsection \<open>The key state machine\<close>

text \<open>
  \<open>clock_gettime(CLOCK_MONOTONIC, ...)\<close> is read at most once in each operation: the
  value it would return is the argument \<open>now\<close>. \<open>diff_us\<close> is an \<^verbatim>\<open>unsigned long\<close>
  (64 bits on the POSIX targets) computed from signed operands with C's truncating
  division.
\<close>

definition diff_us :: "timespec \<Rightarrow> timespec \<Rightarrow> int" where
  "diff_us now prev =
     ((tv_sec now - tv_sec prev) * 1000000 + (tv_nsec now - tv_nsec prev) sdiv 1000) mod 2 ^ 64"

definition ts_set :: "timespec \<Rightarrow> bool" where
  "ts_set t \<longleftrightarrow> tv_sec t \<noteq> 0 \<or> tv_nsec t \<noteq> 0"

definition clearKeyNoLock :: "int \<Rightarrow> bool \<Rightarrow> timespec \<Rightarrow> tutor \<Rightarrow> fault + tutor" where
  "clearKeyNoLock pitch0 mark now s =
     (let pitch = pitch0 AND 255; n = notes s pitch
      in if velo n = -2 then
           and_then (clearTutorLight pitch s) (\<lambda>s1.
             Inr (s1\<lparr>notes := (notes s1)(pitch := (notes s1 pitch)\<lparr>velo := -1\<rparr>)\<rparr>))
         else if velo n \<noteq> -1 then
           (if future n = 0 then
              and_then (clearTutorLight pitch s) (\<lambda>s1.
                Inr (s1\<lparr>num_curr_events := num_curr_events s1 - 1,
                        notes := (notes s1)(pitch := (notes s1 pitch)\<lparr>velo := -1\<rparr>)\<rparr>))
            else if mark then
              Inr (s\<lparr>notes := (notes s)(pitch := n\<lparr>ts := now\<rparr>)\<rparr>)
            else Inr s)
         else Inr s)"

definition clearKey :: "int \<Rightarrow> bool \<Rightarrow> timespec \<Rightarrow> tutor \<Rightarrow> fault + tutor" where
  "clearKey pitch mark now s = clearKeyNoLock pitch mark now s"

text \<open>
  The arbitration of \<open>addKey\<close> (the \<^verbatim>\<open>if\<close> cascade between the mistake marker and
  the assignment to the slot): the request is either dropped (\<open>None\<close>) or goes on with
  the new value of the counter and with \<open>prev\<close>, the time stamp that the replaced
  future event carried.
\<close>

definition arbitrate :: "tnote \<Rightarrow> int \<Rightarrow> int \<Rightarrow> int \<Rightarrow> (int \<times> timespec) option" where
  "arbitrate n vel fut events =
     (if velo n \<noteq> -1 \<and> velo n \<noteq> -2 then
        (if fut = 0 \<and> future n > 0 then
           Some (events + 1, if ts_set (ts n) then ts n else ts_zero)
         else if fut > future n \<or> (fut = future n \<and> vel < velo n) then None
         else Some (events, ts_zero))
      else
        (if fut = 0 then Some (events + 1, ts_zero) else Some (events, ts_zero)))"

definition addKey :: "int \<Rightarrow> int \<Rightarrow> int \<Rightarrow> int \<Rightarrow> timespec \<Rightarrow> tutor \<Rightarrow> fault + tutor" where
  "addKey pitch0 vel chan fut now s =
     (if vel = 0 then clearKey pitch0 False now s
      else
        let pitch = pitch0 AND 255; n = notes s pitch
        in if vel = velo n \<and> chan = channel n \<and> fut = future n then Inr s
           else if chan = -1 then
             and_then (setTutorLight pitch vel chan 0 s) (\<lambda>s1.
               Inr (s1\<lparr>notes := (notes s1)(pitch := (notes s1 pitch)\<lparr>velo := -2\<rparr>)\<rparr>))
           else
             (case arbitrate n vel fut (num_curr_events s) of
                 None \<Rightarrow> Inr s
               | Some (events, prev) \<Rightarrow>
                   and_then
                     (setTutorLight pitch vel chan fut
                        (s\<lparr>num_curr_events := events,
                           notes := (notes s)(pitch :=
                             \<lparr>velo = vel, channel = chan, future = fut, ts = ts_zero\<rparr>)\<rparr>))
                     (\<lambda>s1.
                        if ts_set prev then
                          (if diff_us now prev < 100000 then
                             and_then (clearTutorLight pitch s1) (\<lambda>s2.
                               Inr (s2\<lparr>num_curr_events := num_curr_events s2 - 1,
                                       notes := (notes s2)(pitch := (notes s2 pitch)\<lparr>velo := -1\<rparr>)\<rparr>))
                           else Inr s1)
                        else Inr s1)))"

definition FLUSH_TOUT :: int where
  "FLUSH_TOUT = 5"

definition keyPressed :: "int \<Rightarrow> int \<Rightarrow> timespec \<Rightarrow> tutor \<Rightarrow> fault + (int \<times> tutor)" where
  "keyPressed pitch0 vel now s =
     (if vel = 0 then Inr (-1, s)
      else
        let pitch = pitch0 AND 255; n = notes s pitch
        in if velo n = -1 \<or> velo n = -2 then Inr (-1, s)
           else if future n = 0 then
             and_then
               (if lit_until_release s
                then setTutorLightPressed pitch
                       (s\<lparr>notes := (notes s)(pitch := n\<lparr>velo := -2\<rparr>)\<rparr>)
                else clearTutorLight pitch
                       (s\<lparr>notes := (notes s)(pitch := n\<lparr>velo := -1\<rparr>)\<rparr>))
               (\<lambda>s1. Inr (0, s1\<lparr>num_curr_events := num_curr_events s1 - 1,
                                timers := timers s1 @ [FLUSH_TOUT]\<rparr>))
           else if future n > 0 \<and> num_curr_events s = 0 then
             (let rv = future n
              in and_then (clearKeyNoLock pitch True now s) (\<lambda>s1.
                   Inr (rv, s1\<lparr>timers := timers s1 @ [FLUSH_TOUT]\<rparr>)))
           else Inr (-1, s))"

text \<open>
  \<open>setColor\<close> stores into \<^verbatim>\<open>colors[idx]\<close>; an index outside the array is a store out
  of bounds.
\<close>

definition setColor :: "int \<Rightarrow> int \<Rightarrow> int \<Rightarrow> int \<Rightarrow> tutor \<Rightarrow> fault + tutor" where
  "setColor idx r g b s =
     (if 0 \<le> idx \<and> idx < 3
      then Inr (s\<lparr>colors := (colors s)(idx := ((colors s idx)(0 := r, 1 := g, 2 := b)))\<rparr>)
      else Inl BufferOverrun)"

definition flush :: "tutor \<Rightarrow> fault + tutor" where
  "flush s = flushNoLock s"

definition onFlushTimer :: "tutor \<Rightarrow> fault + tutor" where
  "onFlushTimer s = (if needs_flush s then flushNoLock s else Inr s)"

subsection \<open>The kinds of slots\<close>

text \<open>
  A slot is Unused when \<open>velo = -1\<close>, holds the sentinel of a mistake or of a pressed
  key when \<open>velo = -2\<close>, and is Claimed otherwise; a Claimed slot holds a current event
  when its horizon \<open>future\<close> is 0 and a future event when it is positive.
\<close>

definition claimed :: "tnote \<Rightarrow> bool" where
  "claimed n \<longleftrightarrow> velo n \<noteq> -1 \<and> velo n \<noteq> -2"

definition holds_future :: "tnote \<Rightarrow> bool" where
  "holds_future n \<longleftrightarrow> claimed n \<and> future n > 0"

definition holds_current :: "tnote \<Rightarrow> bool" where
  "holds_current n \<longleftrightarrow> claimed n \<and> future n = 0"

text \<open>The number of slots that hold a current event.\<close>

definition count_current :: "tutor \<Rightarrow> nat" where
  "count_current s = length (filter (\<lambda>i. holds_current (notes s i)) [0..255])"

text \<open>The same number as a sum over the 256 indices.\<close>

definition current_sum :: "(int \<Rightarrow> tnote) \<Rightarrow> int" where
  "current_sum f = (\<Sum>j\<in>{0..255}. if holds_current (f j) then 1 else 0)"

text \<open>The invariant of the data model: the counter equals the number of current events.\<close>

definition counter_ok :: "tutor \<Rightarrow> bool" where
  "counter_ok s \<longleftrightarrow> num_curr_events s = int (count_current s)"

text \<open>
  The colour component \<open>j\<close> that \<open>setTutorLight\<close> sends: taken from the row of the
  channel, divided by 8 for a future event.
\<close>

definition light_color :: "tutor \<Rightarrow> int \<Rightarrow> int \<Rightarrow> int \<Rightarrow> int" where
  "light_color s chan fut j =
     (let c = colors s (if chan = -1 then 0 else 1 + chan smod 2) j
      in if fut > 0 then c sdiv 8 else c)"

subsection \<open>Sequences of calls\<close>

datatype call = AddKey int int int int | ClearKey int bool | KeyPressed int int

fun step :: "call \<Rightarrow> timespec \<Rightarrow> tutor \<Rightarrow> fault + tutor" where
  "step (AddKey pitch vel chan fut) now s = addKey pitch vel chan fut now s"
| "step (ClearKey pitch mark) now s = clearKey pitch mark now s"
| "step (KeyPressed pitch vel) now s = and_then (keyPressed pitch vel now s) (\<lambda>(rv, s'). Inr s')"

text \<open>Each call comes with the time that the clock shows during it.\<close>

fun run :: "(call \<times> timespec) list \<Rightarrow> tutor \<Rightarrow> fault + tutor" where
  "run [] s = Inr s"
| "run ((c, now) # cs) s = and_then (step c now s) (run cs)"

text \<open>
  A call is plain when it is not an \<open>addKey\<close> with the mistake marker, a negative
  velocity or a negative horizon.
\<close>

fun plain_call :: "call \<Rightarrow> bool" where
  "plain_call (AddKey pitch vel chan fut) \<longleftrightarrow> vel \<ge> 0 \<and> chan \<noteq> -1 \<and> fut \<ge> 0"
| "plain_call (ClearKey pitch mark) \<longleftrightarrow> True"
| "plain_call (KeyPressed pitch vel) \<longleftrightarrow> True"

subsection \<open>Concrete controllers\<close>

text \<open>
  \<open>attached_device\<close> is a device that is not open yet, opens at the first attempt, sends
  its greeting and answers three pings. \<open>live_port\<close> is an open device that answers two
  pings. \<open>live_tutor\<close> is the controller as constructed, over memory that held zeros,
  with that open device; \<open>future_tutor h t\<close> is the same with a future event of
  velocity 80, channel 0 and horizon \<open>h\<close> on pitch 60, carrying the time stamp \<open>t\<close>.
\<close>

definition attached_device :: port where
  "attached_device =
     \<lparr>tutorSerial = INVALID_SERIAL, opens = [Open 3 True],
      reads = map ReadByte ''PianoTutor v1.0 is ready!''
                @ [ReadByte (CHR ''P''), ReadByte (CHR ''P''), ReadByte (CHR ''P'')],
      writes = [], wire = []\<rparr>"

definition live_port :: port where
  "live_port =
     \<lparr>tutorSerial = 3, opens = [],
      reads = [ReadByte (CHR ''P''), ReadByte (CHR ''P'')], writes = [], wire = []\<rparr>"

text \<open>
  A device that answers the first ping with the byte \<open>X\<close> and would answer a second
  ping with \<open>P\<close>.
\<close>

definition wrong_pong_port :: port where
  "wrong_pong_port =
     \<lparr>tutorSerial = 3, opens = [],
      reads = [ReadByte (CHR ''X''), ReadByte (CHR ''P'')], writes = [], wire = []\<rparr>"

definition zero_note :: tnote where
  "zero_note = \<lparr>velo = 0, channel = 0, future = 0, ts = ts_zero\<rparr>"

definition live_tutor :: tutor where
  "live_tutor = (Tutor (\<lambda>i. zero_note) live_port)\<lparr>serial := live_port\<rparr>"

definition future_tutor :: "int \<Rightarrow> timespec \<Rightarrow> tutor" where
  "future_tutor h t =
     live_tutor\<lparr>notes := (notes live_tutor)(60 :=
       \<lparr>velo = 80, channel = 0, future = h, ts = t\<rparr>)\<rparr>"

text \<open>What a test observes after an operation: a slot, the counter and the wire.\<close>

definition observe :: "int \<Rightarrow> fault + tutor \<Rightarrow> fault + (tnote \<times> int \<times> string)" where
  "observe i r = map_sum id (\<lambda>s. (notes s i, num_curr_events s, wire (serial s))) r"

definition counter_and_count :: "fault + tutor \<Rightarrow> fault + (int \<times> nat)" where
  "counter_and_count r = map_sum id (\<lambda>s. (num_curr_events s, count_current s)) r"

lemma observe_Inr:
  "observe i r = Inr v \<Longrightarrow>
   \<exists>s. r = Inr s \<and> v = (notes s i, num_curr_events s, wire (serial s))"
  by (cases r) (auto simp: observe_def)

section \<open>Auxiliary facts\<close>

subsection \<open>What the light commands leave unchanged\<close>

lemma setTutorLight_frame:
  "setTutorLight pitch vel chan fut s = Inr s' \<Longrightarrow>
   s' = s\<lparr>serial := serial s', needs_flush := needs_flush s'\<rparr>"
  by (auto simp: setTutorLight_def and_then_eq_Inr Let_def split: if_splits)

lemma clearTutorLight_frame:
  "clearTutorLight pitch s = Inr s' \<Longrightarrow>
   s' = s\<lparr>serial := serial s', needs_flush := needs_flush s'\<rparr>"
  by (auto simp: clearTutorLight_def and_then_eq_Inr Let_def split: if_splits)

lemma setTutorLightPressed_frame:
  "setTutorLightPressed pitch s = Inr s' \<Longrightarrow>
   s' = s\<lparr>serial := serial s', needs_flush := needs_flush s'\<rparr>"
  by (auto simp: setTutorLightPressed_def and_then_eq_Inr Let_def split: if_splits)

lemma setTutorLight_notes:
  "setTutorLight pitch vel chan fut s = Inr s' \<Longrightarrow>
   notes s' = notes s \<and> num_curr_events s' = num_curr_events s"
  by (auto simp: setTutorLight_def and_then_eq_Inr Let_def split: if_splits)

lemma clearTutorLight_notes:
  "clearTutorLight pitch s = Inr s' \<Longrightarrow>
   notes s' = notes s \<and> num_curr_events s' = num_curr_events s"
  by (auto simp: clearTutorLight_def and_then_eq_Inr Let_def split: if_splits)

subsection \<open>The low byte of the pitch\<close>

lemma and_255_idem [simp]: "(p AND 255) AND 255 = p AND (255::int)"
  by (simp add: and.assoc)

lemma addKey_low_byte: "addKey pitch vel chan fut now s = addKey (pitch AND 255) vel chan fut now s"
  by (simp add: addKey_def clearKey_def clearKeyNoLock_def)

lemma clearKey_low_byte: "clearKey pitch mark now s = clearKey (pitch AND 255) mark now s"
  by (simp add: clearKey_def clearKeyNoLock_def)

lemma keyPressed_low_byte: "keyPressed pitch vel now s = keyPressed (pitch AND 255) vel now s"
  by (simp add: keyPressed_def)

subsection \<open>The arbitration\<close>

lemma ts_set_zero [simp]: "\<not> ts_set ts_zero"
  by (simp add: ts_set_def ts_zero_def)

lemma addKey_claim:
  assumes "vel \<noteq> 0" and "chan \<noteq> -1"
    and "\<not> (vel = velo (notes s (pitch AND 255)) \<and> chan = channel (notes s (pitch AND 255)) \<and>
            fut = future (notes s (pitch AND 255)))"
  shows "addKey pitch vel chan fut now s =
     (case arbitrate (notes s (pitch AND 255)) vel fut (num_curr_events s) of
         None \<Rightarrow> Inr s
       | Some (events, prev) \<Rightarrow>
           and_then
             (setTutorLight (pitch AND 255) vel chan fut
                (s\<lparr>num_curr_events := events,
                   notes := (notes s)(pitch AND 255 :=
                     \<lparr>velo = vel, channel = chan, future = fut, ts = ts_zero\<rparr>)\<rparr>))
             (\<lambda>s1.
                if ts_set prev then
                  (if diff_us now prev < 100000 then
                     and_then (clearTutorLight (pitch AND 255) s1) (\<lambda>s2.
                       Inr (s2\<lparr>num_curr_events := num_curr_events s2 - 1,
                               notes := (notes s2)(pitch AND 255 :=
                                 (notes s2 (pitch AND 255))\<lparr>velo := -1\<rparr>)\<rparr>))
                   else Inr s1)
                else Inr s1))"
  unfolding addKey_def Let_def
  apply (subst if_not_P [OF assms(1)])
  apply (subst if_not_P [OF assms(3)])
  apply (subst if_not_P [OF assms(2)])
  apply (rule refl)
  done

lemma arbitrate_lose:
  "claimed n \<Longrightarrow> fut > 0 \<and> fut > future n \<or> fut = future n \<and> vel < velo n \<Longrightarrow>
   arbitrate n vel fut events = None"
  by (auto simp: arbitrate_def claimed_def)

lemma arbitrate_win:
  "claimed n \<Longrightarrow> fut > 0 \<and> fut < future n \<or> fut = future n \<and> vel > velo n \<Longrightarrow>
   arbitrate n vel fut events = Some (events, ts_zero)"
  by (auto simp: arbitrate_def claimed_def)

lemma arbitrate_displace:
  "holds_future n \<Longrightarrow>
   arbitrate n vel 0 events = Some (events + 1, if ts_set (ts n) then ts n else ts_zero)"
  by (auto simp: arbitrate_def claimed_def holds_future_def)

subsection \<open>The LED index and its two hexadecimal digits\<close>

lemma pitchToLight_range: "0 \<le> pitchToLight s pitch \<and> pitchToLight s pitch \<le> 255"
  by (simp add: pitchToLight_def Let_def)

lemma c_round_nearest: "\<bar>of_int (c_round x) - x\<bar> \<le> 1 / 2"
proof (cases "0 \<le> x")
  case True
  then have "c_round x = \<lfloor>x + 1 / 2\<rfloor>" by (simp add: c_round_def)
  then show ?thesis by linarith
next
  case False
  then have "c_round x = \<lceil>x - 1 / 2\<rceil>" by (simp add: c_round_def)
  then show ?thesis by linarith
qed

lemma length_hex_digits_small: "n < 16 \<Longrightarrow> length (hex_digits n) = 1"
  by (subst hex_digits.simps) simp

lemma length_hex02: "0 \<le> x \<Longrightarrow> x \<le> 255 \<Longrightarrow> length (hex02 x) = 2"
proof -
  assume x: "0 \<le> x" "x \<le> 255"
  then have m: "x mod 4294967296 = x" by simp
  show ?thesis
  proof (cases "nat x < 16")
    case True
    then show ?thesis by (simp add: hex02_def m length_hex_digits_small Let_def)
  next
    case False
    with x have "nat x div 16 < 16" by simp
    then have "length (hex_digits (nat x)) = 2"
      using False by (subst hex_digits.simps) (simp add: length_hex_digits_small)
    then show ?thesis by (simp add: hex02_def m Let_def)
  qed
qed

lemma length_fmt_H:
  "0 \<le> led \<Longrightarrow> led \<le> 255 \<Longrightarrow> 0 \<le> r \<Longrightarrow> r \<le> 255 \<Longrightarrow> 0 \<le> g \<Longrightarrow> g \<le> 255 \<Longrightarrow>
   0 \<le> b \<Longrightarrow> b \<le> 255 \<Longrightarrow> length (fmt_H led r g b) = 10"
  by (simp add: fmt_H_def length_hex02)

subsection \<open>The only fault of a command with fields of two digits is a loop that does not end\<close>

lemma greeting_fault: "greeting n p = Inl e \<Longrightarrow> e = NoReturn"
proof (induction n p rule: greeting.induct)
  case (1 to_read p)
  then show ?case
    by (subst (asm) (2) greeting.simps) (auto simp: Let_def split: if_splits)
qed

lemma checkSerial_fault: "checkSerial p = Inl e \<Longrightarrow> e = NoReturn"
  by (auto simp: checkSerial_def Let_def split: if_splits list.splits open_result.splits
      dest: greeting_fault)

lemma handshake_fault: "handshake c p = Inl e \<Longrightarrow> e = NoReturn"
proof (induction c p rule: handshake.induct)
  case (1 pong_char p)
  let ?p1 = "snd (WRITE ping_str 2 p)"
  let ?pong = "case snd (fst (READ ?p1)) of Some c \<Rightarrow> c | None \<Rightarrow> pong_char"
  show ?case
  proof (cases "tutorSerial p = INVALID_SERIAL \<or> reads p = []")
    case True
    with "1.prems" show ?thesis by (subst (asm) handshake.simps) simp
  next
    case False
    show ?thesis
    proof (cases "fst (fst (READ ?p1)) \<noteq> 1")
      case again: True
      with False "1.prems" have rec: "handshake ?pong (snd (READ ?p1)) = Inl e"
        by (subst (asm) handshake.simps) (simp add: Let_def)
      show ?thesis
      proof (cases "?pong \<noteq> CHR ''P''")
        case True
        from "1.IH"(1) [OF False refl refl refl refl True again rec] show ?thesis .
      next
        case isP: False
        from "1.IH"(2) [OF False refl refl refl refl isP again rec] show ?thesis .
      qed
    next
      case finished: False
      with False "1.prems" show ?thesis
        by (subst (asm) handshake.simps) (simp add: Let_def)
    qed
  qed
qed

lemma write_loop_fault: "write_loop data len retry p = Inl e \<Longrightarrow> e = NoReturn"
proof (induction data len retry p rule: write_loop.induct)
  case (1 data len retry p)
  then show ?case
    apply (subst (asm) (3) write_loop.simps)
    apply (auto simp: Let_def and_then_def split: if_splits sum.splits dest: checkSerial_fault)
    done
qed

lemma safe_write_fault:
  "0 \<le> len \<Longrightarrow> len < int (length data) \<Longrightarrow> safe_write data len f p = Inl e \<Longrightarrow> e = NoReturn"
  by (auto simp: safe_write_def and_then_def split: sum.splits if_splits
      dest: handshake_fault write_loop_fault)

lemma send_H_fault:
  assumes "0 \<le> led" "led \<le> 255" "0 \<le> r" "r \<le> 255" "0 \<le> g" "g \<le> 255" "0 \<le> b" "b \<le> 255"
    and "send_H led r g b p = Inl e"
  shows "e = NoReturn"
proof -
  have "length (fmt_H led r g b) = 10" using assms(1-8) by (rule length_fmt_H)
  then have "snd (snprintf 16 15 (fmt_H led r g b)) = 10"
    and "length (fst (snprintf 16 15 (fmt_H led r g b))) = 16"
    by (simp_all add: snprintf_def Let_def)
  then show ?thesis
    using assms(9) safe_write_fault [of 10 "fst (snprintf 16 15 (fmt_H led r g b))" False p e]
    by (simp add: send_H_def Let_def)
qed

lemma sdiv_8_range: "0 \<le> r \<Longrightarrow> r \<le> 255 \<Longrightarrow> 0 \<le> r sdiv 8 \<and> r sdiv 8 \<le> (255::int)"
  by (cases "r = 0") (simp_all add: signed_divide_int_def sgn_if, arith)

lemma setTutorLight_fault:
  assumes "\<forall>i j. 0 \<le> colors s i j \<and> colors s i j \<le> 255"
    and "setTutorLight pitch vel chan fut s = Inl e"
  shows "e = NoReturn"
proof -
  define row where "row = (if chan = -1 then 0 else 1 + chan smod 2)"
  define dim where "dim = (\<lambda>x::int. if fut > 0 then x sdiv 8 else x)"
  have dim: "0 \<le> dim (colors s row j) \<and> dim (colors s row j) \<le> 255" for j
    using assms(1) sdiv_8_range [of "colors s row j"] by (simp add: dim_def)
  have unf: "setTutorLight pitch vel chan fut s =
     and_then (checkSerial (serial s)) (\<lambda>(ok, p).
       if ok then
         and_then (send_H (pitchToLight s pitch)
                     (dim (colors s row 0)) (dim (colors s row 1)) (dim (colors s row 2)) p)
           (\<lambda>p'. Inr (s\<lparr>serial := p', needs_flush := True\<rparr>))
       else Inr (s\<lparr>serial := p\<rparr>))"
    unfolding setTutorLight_def Let_def row_def dim_def ..
  show ?thesis
  proof (cases "checkSerial (serial s)")
    case (Inl e')
    with assms(2) unf show ?thesis by (auto dest: checkSerial_fault)
  next
    case (Inr a)
    obtain ok p where a: "a = (ok, p)" by (cases a)
    with Inr assms(2) unf have ok: "ok"
      and "and_then (send_H (pitchToLight s pitch)
                     (dim (colors s row 0)) (dim (colors s row 1)) (dim (colors s row 2)) p)
           (\<lambda>p'. Inr (s\<lparr>serial := p', needs_flush := True\<rparr>)) = Inl e"
      by (auto split: if_splits)
    then have "send_H (pitchToLight s pitch)
                     (dim (colors s row 0)) (dim (colors s row 1)) (dim (colors s row 2)) p = Inl e"
      by (auto simp: and_then_def split: sum.splits)
    then show ?thesis
      using send_H_fault pitchToLight_range [of s pitch] dim by blast
  qed
qed

lemma constant_light_fault:
  assumes "0 \<le> c" "c \<le> 255"
    and "and_then (checkSerial (serial s)) (\<lambda>(ok, p).
       if ok then
         and_then (send_H (pitchToLight s pitch) c c c p)
           (\<lambda>p'. Inr (s\<lparr>serial := p', needs_flush := True\<rparr>))
       else Inr (s\<lparr>serial := p\<rparr>)) = Inl e"
  shows "e = NoReturn"
proof (cases "checkSerial (serial s)")
  case (Inl e')
  with assms(3) show ?thesis by (auto dest: checkSerial_fault)
next
  case (Inr a)
  obtain ok p where a: "a = (ok, p)" by (cases a)
  with Inr assms(3) have "send_H (pitchToLight s pitch) c c c p = Inl e"
    by (auto simp: and_then_def split: if_splits sum.splits)
  then show ?thesis
    using send_H_fault pitchToLight_range [of s pitch] assms(1,2) by blast
qed

lemma clearTutorLight_fault: "clearTutorLight pitch s = Inl e \<Longrightarrow> e = NoReturn"
  using constant_light_fault [of 0 s pitch e] by (simp add: clearTutorLight_def)

lemma setTutorLightPressed_fault: "setTutorLightPressed pitch s = Inl e \<Longrightarrow> e = NoReturn"
  using constant_light_fault [of 2 s pitch e] by (simp add: setTutorLightPressed_def)

subsection \<open>A device that answers the ping and accepts every write\<close>

lemma handshake_live:
  assumes "tutorSerial p \<noteq> INVALID_SERIAL" and "reads p = ReadByte c # rs" and "writes p = []"
  shows "handshake pc p = Inr (c, p\<lparr>reads := rs, wire := wire p @ ping_str\<rparr>)"
  using assms
  by (subst handshake.simps) (simp add: WRITE_def READ_def Let_def ping_str_def)

lemma write_loop_live:
  assumes "tutorSerial p \<noteq> INVALID_SERIAL" and "writes p = []" and "0 < len"
  shows "write_loop data len retry p = Inr (p\<lparr>wire := wire p @ take (nat len) data\<rparr>)"
proof -
  have "write_loop (drop (nat len) data) 0 retry q = Inr q" for q
    by (subst write_loop.simps) simp
  then show ?thesis
    using assms by (subst write_loop.simps) (simp add: WRITE_def Let_def)
qed

lemma safe_write_live:
  assumes "tutorSerial p \<noteq> INVALID_SERIAL" and "reads p = ReadByte c # rs" and "writes p = []"
    and "0 < len" and "len < int (length data)"
  shows "safe_write data len f p =
           Inr (p\<lparr>reads := rs, wire := wire p @ ping_str @ take (nat len) data\<rparr>)"
  using assms
  by (simp add: safe_write_def handshake_live [OF assms(1-3)] write_loop_live)

lemma length_fmt_H_pos: "0 < length (fmt_H led r g b)"
  by (simp add: fmt_H_def)

lemma send_H_live:
  assumes "tutorSerial p \<noteq> INVALID_SERIAL" and "reads p = ReadByte c # rs" and "writes p = []"
    and "length (fmt_H led r g b) \<le> 14"
  shows "send_H led r g b p =
           Inr (p\<lparr>reads := rs, wire := wire p @ ping_str @ fmt_H led r g b\<rparr>)"
proof -
  let ?text = "fmt_H led r g b"
  have buf: "fst (snprintf 16 15 ?text) = ?text @ CHR 0x00 # replicate (15 - length ?text) (CHR 0x00)"
    and len: "snd (snprintf 16 15 ?text) = int (length ?text)"
    using assms(4) by (simp_all add: snprintf_def Let_def)
  have "safe_write (fst (snprintf 16 15 ?text)) (int (length ?text)) False p =
          Inr (p\<lparr>reads := rs, wire := wire p @ ping_str @
                 take (nat (int (length ?text))) (fst (snprintf 16 15 ?text))\<rparr>)"
    using assms(4) length_fmt_H_pos [of led r g b]
    by (intro safe_write_live [OF assms(1-3)]) (simp_all add: buf)
  then show ?thesis by (simp add: send_H_def Let_def len buf)
qed

lemma setTutorLight_live:
  assumes "tutorSerial (serial s) \<noteq> INVALID_SERIAL" and "reads (serial s) = ReadByte c # rs"
    and "writes (serial s) = []"
    and "length (fmt_H (pitchToLight s pitch) (light_color s chan fut 0)
                   (light_color s chan fut 1) (light_color s chan fut 2)) \<le> 14"
  shows "setTutorLight pitch vel chan fut s =
           Inr (s\<lparr>serial := (serial s)\<lparr>reads := rs,
                     wire := wire (serial s) @ ping_str @
                       fmt_H (pitchToLight s pitch) (light_color s chan fut 0)
                         (light_color s chan fut 1) (light_color s chan fut 2)\<rparr>,
                  needs_flush := True\<rparr>)"
proof -
  have "checkSerial (serial s) = Inr (True, serial s)"
    using assms(1) by (simp add: checkSerial_def)
  moreover have "setTutorLight pitch vel chan fut s =
     and_then (checkSerial (serial s)) (\<lambda>(ok, p).
       if ok then
         and_then (send_H (pitchToLight s pitch) (light_color s chan fut 0)
                     (light_color s chan fut 1) (light_color s chan fut 2) p)
           (\<lambda>p'. Inr (s\<lparr>serial := p', needs_flush := True\<rparr>))
       else Inr (s\<lparr>serial := p\<rparr>))"
    unfolding setTutorLight_def light_color_def Let_def ..
  ultimately show ?thesis
    by (simp add: send_H_live [OF assms])
qed

lemma pitchToLight_update [simp]:
  "pitchToLight (s\<lparr>serial := p\<rparr>) = pitchToLight s"
  "pitchToLight (s\<lparr>notes := f\<rparr>) = pitchToLight s"
  "pitchToLight (s\<lparr>num_curr_events := k\<rparr>) = pitchToLight s"
  "pitchToLight (s\<lparr>needs_flush := b\<rparr>) = pitchToLight s"
  by (simp_all add: pitchToLight_def fun_eq_iff)

lemma light_color_update [simp]:
  "light_color (s\<lparr>serial := p\<rparr>) = light_color s"
  "light_color (s\<lparr>notes := f\<rparr>) = light_color s"
  "light_color (s\<lparr>num_curr_events := k\<rparr>) = light_color s"
  "light_color (s\<lparr>needs_flush := b\<rparr>) = light_color s"
  by (simp_all add: light_color_def fun_eq_iff)

lemma clearTutorLight_live:
  assumes "tutorSerial (serial s) \<noteq> INVALID_SERIAL" and "reads (serial s) = ReadByte c # rs"
    and "writes (serial s) = []"
  shows "clearTutorLight pitch s =
           Inr (s\<lparr>serial := (serial s)\<lparr>reads := rs,
                     wire := wire (serial s) @ ping_str @ fmt_H (pitchToLight s pitch) 0 0 0\<rparr>,
                  needs_flush := True\<rparr>)"
proof -
  have "checkSerial (serial s) = Inr (True, serial s)"
    using assms(1) by (simp add: checkSerial_def)
  moreover have "length (fmt_H (pitchToLight s pitch) 0 0 0) \<le> 14"
    using pitchToLight_range [of s pitch] length_fmt_H [of "pitchToLight s pitch" 0 0 0] by simp
  ultimately show ?thesis
    by (simp add: clearTutorLight_def send_H_live [OF assms])
qed

subsection \<open>The counter of current events under each operation\<close>

lemma count_current_sum: "int (count_current s) = current_sum (notes s)"
proof -
  have "int (length (filter P xs)) = (\<Sum>x\<leftarrow>xs. if P x then 1 else 0)" for P and xs :: "int list"
    by (induction xs) simp_all
  then have "int (count_current s) = (\<Sum>j\<leftarrow>[0..255]. if holds_current (notes s j) then 1 else 0)"
    by (simp add: count_current_def)
  also have "\<dots> = current_sum (notes s)"
    unfolding current_sum_def
    by (subst sum_list_distinct_conv_sum_set) simp_all
  finally show ?thesis .
qed

lemma current_sum_update:
  assumes "0 \<le> i" and "i \<le> 255"
  shows "current_sum (f(i := v)) =
         current_sum f - (if holds_current (f i) then 1 else 0) + (if holds_current v then 1 else 0)"
proof -
  have i: "i \<in> {0..255}" using assms by simp
  have fin: "finite {0..255::int}" by simp
  have rest: "(\<Sum>j\<in>{0..255} - {i}. if holds_current ((f(i := v)) j) then 1 else 0 :: int) =
        (\<Sum>j\<in>{0..255} - {i}. if holds_current (f j) then 1 else 0)"
    by (rule sum.cong) simp_all
  show ?thesis
    unfolding current_sum_def
    by (subst (1 2) sum.remove [OF fin i]) (simp add: rest)
qed

lemma and_255_range: "0 \<le> p AND 255 \<and> p AND 255 \<le> (255::int)"
  by (simp add: AND_upper2)

lemma counter_ok_sum: "counter_ok s \<longleftrightarrow> num_curr_events s = current_sum (notes s)"
  by (simp add: counter_ok_def count_current_sum)

lemma setTutorLightPressed_notes:
  "setTutorLightPressed pitch s = Inr s' \<Longrightarrow>
   notes s' = notes s \<and> num_curr_events s' = num_curr_events s"
  by (auto simp: setTutorLightPressed_def and_then_eq_Inr Let_def split: if_splits)

lemma slot_update_sum:
  "current_sum (f(p AND 255 := v)) =
     current_sum f - (if holds_current (f (p AND 255)) then 1 else 0)
       + (if holds_current v then 1 else 0)"
  using and_255_range [of p] by (intro current_sum_update) simp_all

lemma clearKeyNoLock_ok:
  assumes "counter_ok s" and "clearKeyNoLock pitch mark now s = Inr s'"
  shows "counter_ok s'"
proof -
  let ?i = "pitch AND 255"
  let ?n = "notes s ?i"
  consider (sentinel) "velo ?n = -2"
    | (current) "velo ?n \<noteq> -2" "velo ?n \<noteq> -1" "future ?n = 0"
    | (marked) "velo ?n \<noteq> -2" "velo ?n \<noteq> -1" "future ?n \<noteq> 0" "mark"
    | (nothing) "velo ?n \<noteq> -2" "velo ?n = -1 \<or> future ?n \<noteq> 0 \<and> \<not> mark"
    by blast
  then show ?thesis
  proof cases
    case sentinel
    with assms(2) obtain s1 where 1: "clearTutorLight ?i s = Inr s1"
      and 2: "s' = s1\<lparr>notes := (notes s1)(?i := (notes s1 ?i)\<lparr>velo := -1\<rparr>)\<rparr>"
      by (auto simp: clearKeyNoLock_def Let_def and_then_eq_Inr)
    from clearTutorLight_notes [OF 1] 2 assms(1) sentinel show ?thesis
      by (simp add: counter_ok_sum slot_update_sum holds_current_def claimed_def)
  next
    case current
    with assms(2) obtain s1 where 1: "clearTutorLight ?i s = Inr s1"
      and 2: "s' = s1\<lparr>num_curr_events := num_curr_events s1 - 1,
                       notes := (notes s1)(?i := (notes s1 ?i)\<lparr>velo := -1\<rparr>)\<rparr>"
      by (auto simp: clearKeyNoLock_def Let_def and_then_eq_Inr)
    from clearTutorLight_notes [OF 1] 2 assms(1) current show ?thesis
      by (simp add: counter_ok_sum slot_update_sum holds_current_def claimed_def)
  next
    case marked
    with assms(2) have "s' = s\<lparr>notes := (notes s)(?i := ?n\<lparr>ts := now\<rparr>)\<rparr>"
      by (auto simp: clearKeyNoLock_def Let_def)
    with assms(1) show ?thesis
      by (simp add: counter_ok_sum slot_update_sum holds_current_def claimed_def)
  next
    case nothing
    with assms(2) have "s' = s"
      by (auto simp: clearKeyNoLock_def Let_def split: if_splits)
    with assms(1) show ?thesis by simp
  qed
qed

lemma keyPressed_ok:
  assumes "counter_ok s" and "keyPressed pitch vel now s = Inr (rv, s')"
  shows "counter_ok s'"
proof -
  let ?i = "pitch AND 255"
  let ?n = "notes s ?i"
  consider (noop) "vel = 0 \<or> velo ?n = -1 \<or> velo ?n = -2 \<or>
                   (future ?n \<noteq> 0 \<and> \<not> (future ?n > 0 \<and> num_curr_events s = 0))"
    | (current) "vel \<noteq> 0" "velo ?n \<noteq> -1" "velo ?n \<noteq> -2" "future ?n = 0"
    | (skip) "vel \<noteq> 0" "velo ?n \<noteq> -1" "velo ?n \<noteq> -2" "future ?n > 0" "num_curr_events s = 0"
    by fastforce
  then show ?thesis
  proof cases
    case noop
    with assms(2) have "s' = s"
      by (auto simp: keyPressed_def Let_def split: if_splits)
    with assms(1) show ?thesis by simp
  next
    case current
    let ?v = "if lit_until_release s then -2 else (-1::int)"
    let ?s0 = "s\<lparr>notes := (notes s)(?i := ?n\<lparr>velo := ?v\<rparr>)\<rparr>"
    from current assms(2) obtain s1 where
      1: "notes s1 = notes ?s0 \<and> num_curr_events s1 = num_curr_events ?s0" and
      2: "s' = s1\<lparr>num_curr_events := num_curr_events s1 - 1, timers := timers s1 @ [FLUSH_TOUT]\<rparr>"
      by (auto simp: keyPressed_def Let_def and_then_eq_Inr split: if_splits
          dest!: setTutorLightPressed_notes clearTutorLight_notes)
    from 1 2 assms(1) current show ?thesis
      by (auto simp: counter_ok_sum slot_update_sum holds_current_def claimed_def)
  next
    case skip
    with assms(2) obtain s1 where 1: "clearKeyNoLock ?i True now s = Inr s1"
      and 2: "s' = s1\<lparr>timers := timers s1 @ [FLUSH_TOUT]\<rparr>"
      by (auto simp: keyPressed_def Let_def and_then_eq_Inr)
    from clearKeyNoLock_ok [OF assms(1) 1] 2 show ?thesis
      by (simp add: counter_ok_sum)
  qed
qed

lemma arbitrate_counts:
  assumes "arbitrate n vel fut events0 = Some (events, prev)" and "vel > 0" and "fut \<ge> 0"
  shows "events = events0 - (if holds_current n then 1 else 0)
                    + (if holds_current \<lparr>velo = vel, channel = chan, future = fut, ts = ts_zero\<rparr>
                       then 1 else 0)"
    and "ts_set prev \<longrightarrow> fut = 0"
  using assms
  by (auto simp: arbitrate_def holds_current_def claimed_def split: if_splits)

lemma addKey_ok:
  assumes "counter_ok s" and "vel \<ge> 0" and "chan \<noteq> -1" and "fut \<ge> 0"
    and "addKey pitch vel chan fut now s = Inr s'"
  shows "counter_ok s'"
proof (cases "vel = 0")
  case True
  with assms(5) have "clearKeyNoLock pitch False now s = Inr s'"
    by (simp add: addKey_def clearKey_def)
  from clearKeyNoLock_ok [OF assms(1) this] show ?thesis .
next
  case False
  let ?i = "pitch AND 255"
  let ?n = "notes s ?i"
  let ?new = "\<lparr>velo = vel, channel = chan, future = fut, ts = ts_zero\<rparr>"
  show ?thesis
  proof (cases "vel = velo ?n \<and> chan = channel ?n \<and> fut = future ?n")
    case True
    with False assms(5) have "s' = s" by (simp add: addKey_def Let_def)
    with assms(1) show ?thesis by simp
  next
    case nd: False
    note unf = addKey_claim [OF False assms(3) nd, of now]
    show ?thesis
    proof (cases "arbitrate ?n vel fut (num_curr_events s)")
      case None
      with unf assms(5) have "s' = s" by simp
      with assms(1) show ?thesis by simp
    next
      case (Some a)
      obtain events prev where a: "a = (events, prev)" by (cases a)
      let ?s1 = "s\<lparr>num_curr_events := events, notes := (notes s)(?i := ?new)\<rparr>"
      from False assms(2) have vpos: "vel > 0" by simp
      note cnt = arbitrate_counts(1) [OF Some [unfolded a] vpos assms(4), where chan = chan]
        arbitrate_counts(2) [OF Some [unfolded a] vpos assms(4)]
      have ok1: "counter_ok ?s1"
        using assms(1) cnt(1) by (simp add: counter_ok_sum slot_update_sum)
      from unf assms(5) Some a have
        "and_then (setTutorLight ?i vel chan fut ?s1)
           (\<lambda>s1. if ts_set prev then
               (if diff_us now prev < 100000 then
                  and_then (clearTutorLight ?i s1) (\<lambda>s2.
                    Inr (s2\<lparr>num_curr_events := num_curr_events s2 - 1,
                            notes := (notes s2)(?i := (notes s2 ?i)\<lparr>velo := -1\<rparr>)\<rparr>))
                else Inr s1)
             else Inr s1) = Inr s'"
        by simp
      then obtain s2 where
        2: "setTutorLight ?i vel chan fut ?s1 = Inr s2" and
        3: "(if ts_set prev then
               (if diff_us now prev < 100000 then
                  and_then (clearTutorLight ?i s2) (\<lambda>s3.
                    Inr (s3\<lparr>num_curr_events := num_curr_events s3 - 1,
                            notes := (notes s3)(?i := (notes s3 ?i)\<lparr>velo := -1\<rparr>)\<rparr>))
                else Inr s2)
             else Inr s2) = Inr s'"
        unfolding and_then_eq_Inr by blast
      from setTutorLight_notes [OF 2] ok1 have ok2: "counter_ok s2"
        and n2: "notes s2 ?i = ?new"
        by (simp_all add: counter_ok_sum)
      show ?thesis
      proof (cases "ts_set prev \<and> diff_us now prev < 100000")
        case True
        with 3 obtain s3 where 4: "clearTutorLight ?i s2 = Inr s3"
          and 5: "s' = s3\<lparr>num_curr_events := num_curr_events s3 - 1,
                          notes := (notes s3)(?i := (notes s3 ?i)\<lparr>velo := -1\<rparr>)\<rparr>"
          by (auto simp: and_then_eq_Inr)
        from True cnt(2) have "fut = 0" by simp
        with clearTutorLight_notes [OF 4] 5 ok2 n2 vpos show ?thesis
          by (simp add: counter_ok_sum slot_update_sum holds_current_def claimed_def)
      next
        case False
        with 3 have "s' = s2" by (auto split: if_splits)
        with ok2 show ?thesis by simp
      qed
    qed
  qed
qed

lemma step_ok:
  "counter_ok s \<Longrightarrow> plain_call c \<Longrightarrow> step c now s = Inr s' \<Longrightarrow> counter_ok s'"
  by (cases c)
     (auto simp: clearKey_def and_then_eq_Inr
       intro: addKey_ok clearKeyNoLock_ok keyPressed_ok)

lemma run_ok:
  "counter_ok s \<Longrightarrow> list_all (\<lambda>(c, now). plain_call c) calls \<Longrightarrow> run calls s = Inr s' \<Longrightarrow>
   counter_ok s'"
proof (induction calls arbitrary: s)
  case Nil
  then show ?case by simp
next
  case (Cons a calls)
  obtain c now where a: "a = (c, now)" by (cases a)
  from Cons.prems(3) a obtain s1 where 1: "step c now s = Inr s1" and 2: "run calls s1 = Inr s'"
    by (auto simp: and_then_eq_Inr)
  from Cons.prems(1,2) a 1 have "counter_ok s1" by (auto intro: step_ok)
  with Cons.IH [OF _ _ 2] Cons.prems(2) show ?case by simp
qed

lemma Tutor_ok: "counter_ok (Tutor garbage env)"
  by (simp add: counter_ok_sum current_sum_def Tutor_def holds_current_def claimed_def)

section \<open>The handshake of safe_write\<close>

text \<open>
  Claim C3 says that the handshake of \<open>safe_write\<close> repeats the ping until the byte
  read back is \<open>P\<close>, so that the command is never written after a one-byte reply
  other than \<open>P\<close>. The code does not do so: on \<open>wrong_pong_port\<close> the flush command
  \<open>F\<close> goes on the wire right after the single ping that was answered with \<open>X\<close>, and
  the second reply is never read.
\<close>

theorem safe_write_after_wrong_pong:
  "safe_write (''F\<newline>'' @ [CHR 0x00, CHR 0x00]) 2 True wrong_pong_port =
     Inr \<lparr>tutorSerial = 3, opens = [], reads = [ReadByte (CHR ''P'')], writes = [],
          wire = ''P\<newline>F\<newline>''\<rparr>"
  by (simp add: safe_write_def wrong_pong_port_def handshake.simps write_loop.simps
      READ_def WRITE_def INVALID_SERIAL_def ping_str_def Let_def)

section \<open>keyPressed\<close>

text \<open>
  Claim C10: whenever \<open>keyPressed\<close> returns -1 the whole state of the controller is
  unchanged (slots, counter, serial port and wire, pending timers), and it returns -1,
  with the state unchanged, when the velocity is 0, when the slot is Unused or holds
  the sentinel, and when the slot holds a future event while the counter is positive.
\<close>

theorem keyPressed_noop:
  "(keyPressed pitch vel now s = Inr (-1, s') \<longrightarrow> s' = s) \<and>
   (vel = 0 \<or> velo (notes s (pitch AND 255)) = -1 \<or> velo (notes s (pitch AND 255)) = -2 \<or>
    (holds_future (notes s (pitch AND 255)) \<and> num_curr_events s > 0)
      \<longrightarrow> keyPressed pitch vel now s = Inr (-1, s))"
  by (auto simp: keyPressed_def Let_def and_then_eq_Inr holds_future_def claimed_def
      split: if_splits)

text \<open>
  A key press on pitch 60, which holds a future event of horizon 3, while another
  current event is pending: the call returns -1 and changes nothing.
\<close>

theorem keyPressed_noop_witness:
  "holds_future (notes ((future_tutor 3 ts_zero)\<lparr>num_curr_events := 1\<rparr>) (60 AND 255)) \<and>
   num_curr_events ((future_tutor 3 ts_zero)\<lparr>num_curr_events := 1\<rparr>) > 0 \<and>
   keyPressed 60 64 ts_zero ((future_tutor 3 ts_zero)\<lparr>num_curr_events := 1\<rparr>) =
     Inr (-1, (future_tutor 3 ts_zero)\<lparr>num_curr_events := 1\<rparr>)"
proof -
  let ?s = "(future_tutor 3 ts_zero)\<lparr>num_curr_events := 1\<rparr>"
  have h: "holds_future (notes ?s (60 AND 255)) \<and> num_curr_events ?s > 0"
    by (simp add: future_tutor_def holds_future_def claimed_def)
  with keyPressed_noop [of 60 64 ts_zero ?s ?s] show ?thesis by blast
qed

text \<open>
  Claim C2 says that a key press on a slot that holds a future event, while the counter
  is 0, clears the future claim, so that the slot no longer holds it. The code only
  records the time of the press in the slot: on \<open>future_tutor 3 ts_zero\<close> the call
  returns 3 and schedules the flush, and the slot of pitch 60 still holds its future
  event afterwards. The same is seen on the freshly constructed controller after
  \<open>addKey(60, 80, 0, 3)\<close> and \<open>keyPressed(60, 64)\<close>: the slot keeps the claim and only
  the light command of \<open>addKey\<close> is on the wire.
\<close>

theorem keyPressed_keeps_future_claim:
  "keyPressed 60 64 \<lparr>tv_sec = 1, tv_nsec = 0\<rparr> (future_tutor 3 ts_zero) =
     Inr (3, (future_tutor 3 \<lparr>tv_sec = 1, tv_nsec = 0\<rparr>)\<lparr>timers := [FLUSH_TOUT]\<rparr>) \<and>
   holds_future (notes ((future_tutor 3 \<lparr>tv_sec = 1, tv_nsec = 0\<rparr>)\<lparr>timers := [FLUSH_TOUT]\<rparr>) 60) \<and>
   observe 60
     (run [(AddKey 60 80 0 3, ts_zero), (KeyPressed 60 64, \<lparr>tv_sec = 1, tv_nsec = 0\<rparr>)]
        (Tutor (\<lambda>i. zero_note) attached_device)) =
     Inr (\<lparr>velo = 80, channel = 0, future = 3, ts = \<lparr>tv_sec = 1, tv_nsec = 0\<rparr>\<rparr>, 0,
          ''P\<newline>H47020002\<newline>'')"
proof -
  have "keyPressed 60 64 \<lparr>tv_sec = 1, tv_nsec = 0\<rparr> (future_tutor 3 ts_zero) =
     Inr (3, (future_tutor 3 \<lparr>tv_sec = 1, tv_nsec = 0\<rparr>)\<lparr>timers := [FLUSH_TOUT]\<rparr>)"
    by (simp add: keyPressed_def clearKeyNoLock_def future_tutor_def live_tutor_def Tutor_def)
  moreover have
    "holds_future (notes ((future_tutor 3 \<lparr>tv_sec = 1, tv_nsec = 0\<rparr>)\<lparr>timers := [FLUSH_TOUT]\<rparr>) 60)"
    by (simp add: future_tutor_def holds_future_def claimed_def)
  moreover have "observe 60
     (run [(AddKey 60 80 0 3, ts_zero), (KeyPressed 60 64, \<lparr>tv_sec = 1, tv_nsec = 0\<rparr>)]
        (Tutor (\<lambda>i. zero_note) attached_device)) =
     Inr (\<lparr>velo = 80, channel = 0, future = 3, ts = \<lparr>tv_sec = 1, tv_nsec = 0\<rparr>\<rparr>, 0,
          ''P\<newline>H47020002\<newline>'')"
    by code_simp
  ultimately show ?thesis by (intro conjI)
qed

text \<open>
  Claim C2, amended: when the slot holds a future event, the counter is 0 and the
  velocity is positive, \<open>keyPressed\<close> returns the horizon of the event and schedules
  one deferred flush; the slot keeps its velocity, channel and horizon (the future
  claim stays in place) and only its time stamp is set to the current time; nothing is
  sent to the device.
\<close>

theorem keyPressed_skip_ahead:
  assumes "holds_future (notes s (pitch AND 255))" and "num_curr_events s = 0" and "vel > 0"
  shows "keyPressed pitch vel now s =
     Inr (future (notes s (pitch AND 255)),
          s\<lparr>notes := (notes s)(pitch AND 255 := (notes s (pitch AND 255))\<lparr>ts := now\<rparr>),
            timers := timers s @ [FLUSH_TOUT]\<rparr>)"
  using assms
  by (auto simp: keyPressed_def clearKeyNoLock_def Let_def holds_future_def claimed_def)

theorem keyPressed_skip_ahead_witness:
  "holds_future (notes (future_tutor 3 ts_zero) (60 AND 255)) \<and>
   num_curr_events (future_tutor 3 ts_zero) = 0 \<and> (64::int) > 0 \<and>
   keyPressed 60 64 \<lparr>tv_sec = 1, tv_nsec = 0\<rparr> (future_tutor 3 ts_zero) =
     Inr (future (notes (future_tutor 3 ts_zero) (60 AND 255)),
          (future_tutor 3 ts_zero)
            \<lparr>notes := (notes (future_tutor 3 ts_zero))(60 AND 255 :=
                (notes (future_tutor 3 ts_zero) (60 AND 255))\<lparr>ts := \<lparr>tv_sec = 1, tv_nsec = 0\<rparr>\<rparr>),
             timers := timers (future_tutor 3 ts_zero) @ [FLUSH_TOUT]\<rparr>)"
proof -
  have h1: "holds_future (notes (future_tutor 3 ts_zero) (60 AND 255))"
    by (simp add: future_tutor_def holds_future_def claimed_def)
  have h2: "num_curr_events (future_tutor 3 ts_zero) = 0"
    by (simp add: future_tutor_def live_tutor_def Tutor_def)
  have h3: "(64::int) > 0" by simp
  from keyPressed_skip_ahead [OF h1 h2 h3] h1 h2 h3 show ?thesis by blast
qed

section \<open>addKey\<close>

text \<open>
  Claim C6: on a slot that holds a claimed event, a new claim with a positive velocity,
  a channel other than -1 and a different (velocity, channel, horizon) wins when its
  positive horizon is smaller than the stored one, or when the horizons are equal and
  its velocity is higher: the slot then holds the new claim, the counter is unchanged
  and the light command of the new claim is issued. It loses when its positive horizon
  is larger, or when the horizons are equal and its velocity is lower: the state is
  then unchanged and nothing is sent.
\<close>

theorem addKey_priority:
  fixes s :: tutor and pitch vel chan fut :: int and now :: timespec
  defines "i \<equiv> pitch AND 255"
  defines "n \<equiv> notes s i"
  defines "new \<equiv> \<lparr>velo = vel, channel = chan, future = fut, ts = ts_zero\<rparr>"
  assumes "claimed n" and "vel > 0" and "chan \<noteq> -1"
    and "(vel, chan, fut) \<noteq> (velo n, channel n, future n)"
  shows "(fut > 0 \<and> fut < future n \<or> fut = future n \<and> vel > velo n \<longrightarrow>
           addKey pitch vel chan fut now s =
             setTutorLight i vel chan fut (s\<lparr>notes := (notes s)(i := new)\<rparr>) \<and>
           (\<forall>s'. addKey pitch vel chan fut now s = Inr s' \<longrightarrow>
              notes s' i = new \<and> num_curr_events s' = num_curr_events s)) \<and>
         (fut > 0 \<and> fut > future n \<or> fut = future n \<and> vel < velo n \<longrightarrow>
           addKey pitch vel chan fut now s = Inr s)"
proof -
  have unf: "addKey pitch vel chan fut now s =
     (case arbitrate n vel fut (num_curr_events s) of
         None \<Rightarrow> Inr s
       | Some (events, prev) \<Rightarrow>
           and_then
             (setTutorLight i vel chan fut (s\<lparr>num_curr_events := events, notes := (notes s)(i := new)\<rparr>))
             (\<lambda>s1.
                if ts_set prev then
                  (if diff_us now prev < 100000 then
                     and_then (clearTutorLight i s1) (\<lambda>s2.
                       Inr (s2\<lparr>num_curr_events := num_curr_events s2 - 1,
                               notes := (notes s2)(i := (notes s2 i)\<lparr>velo := -1\<rparr>)\<rparr>))
                   else Inr s1)
                else Inr s1))"
    unfolding i_def n_def new_def
    using assms(5-7) by (intro addKey_claim) (auto simp: n_def i_def)
  have lose: "addKey pitch vel chan fut now s = Inr s"
    if "fut > 0 \<and> fut > future n \<or> fut = future n \<and> vel < velo n"
    using arbitrate_lose [OF assms(4) that] unf by simp
  have win: "addKey pitch vel chan fut now s =
             setTutorLight i vel chan fut (s\<lparr>notes := (notes s)(i := new)\<rparr>)"
    if "fut > 0 \<and> fut < future n \<or> fut = future n \<and> vel > velo n"
  proof -
    have "and_then m Inr = m" for m :: "fault + tutor" by (cases m) simp_all
    then show ?thesis using arbitrate_win [OF assms(4) that] unf by simp
  qed
  have after: "notes s' i = new \<and> num_curr_events s' = num_curr_events s"
    if "fut > 0 \<and> fut < future n \<or> fut = future n \<and> vel > velo n"
      and "addKey pitch vel chan fut now s = Inr s'" for s'
    using setTutorLight_notes [of i vel chan fut "s\<lparr>notes := (notes s)(i := new)\<rparr>" s']
      win [OF that(1)] that(2) by simp
  show ?thesis using lose win after by blast
qed

text \<open>
  On a future event of horizon 5 and velocity 80 on pitch 60: a claim of horizon 3 wins
  and a claim of horizon 7 loses; on the same slot a claim of horizon 5 wins with
  velocity 90 and loses with velocity 70.
\<close>

theorem addKey_priority_witness:
  "observe 60 (addKey 60 80 1 3 ts_zero (future_tutor 5 ts_zero)) =
     Inr (\<lparr>velo = 80, channel = 1, future = 3, ts = ts_zero\<rparr>, 0, ''P\<newline>H47000202\<newline>'') \<and>
   addKey 60 80 1 7 ts_zero (future_tutor 5 ts_zero) = Inr (future_tutor 5 ts_zero) \<and>
   observe 60 (addKey 60 90 1 5 ts_zero (future_tutor 5 ts_zero)) =
     Inr (\<lparr>velo = 90, channel = 1, future = 5, ts = ts_zero\<rparr>, 0, ''P\<newline>H47000202\<newline>'') \<and>
   addKey 60 70 1 5 ts_zero (future_tutor 5 ts_zero) = Inr (future_tutor 5 ts_zero)"
proof -
  let ?s = "future_tutor 5 ts_zero"
  have n: "notes ?s 60 = \<lparr>velo = 80, channel = 0, future = 5, ts = ts_zero\<rparr>"
    by (simp add: future_tutor_def)
  have h1: "claimed (notes ?s (60 AND 255))" by (simp add: n claimed_def)
  have h3: "(1::int) \<noteq> -1" by simp
  have lose7: "addKey 60 80 1 7 ts_zero ?s = Inr ?s"
    using addKey_priority [OF h1 _ h3, of 80 7 ts_zero] by (simp add: n)
  have lose70: "addKey 60 70 1 5 ts_zero ?s = Inr ?s"
    using addKey_priority [OF h1 _ h3, of 70 5 ts_zero] by (simp add: n)
  have win3: "addKey 60 80 1 3 ts_zero ?s =
      setTutorLight (60 AND 255) 80 1 3
        (?s\<lparr>notes := (notes ?s)(60 AND 255 :=
            \<lparr>velo = 80, channel = 1, future = 3, ts = ts_zero\<rparr>)\<rparr>)"
    using addKey_priority [OF h1 _ h3, of 80 3 ts_zero] by (simp add: n)
  have win90: "addKey 60 90 1 5 ts_zero ?s =
      setTutorLight (60 AND 255) 90 1 5
        (?s\<lparr>notes := (notes ?s)(60 AND 255 :=
            \<lparr>velo = 90, channel = 1, future = 5, ts = ts_zero\<rparr>)\<rparr>)"
    using addKey_priority [OF h1 _ h3, of 90 5 ts_zero] by (simp add: n)
  have sent3: "observe 60 (setTutorLight (60 AND 255) 80 1 3
        (?s\<lparr>notes := (notes ?s)(60 AND 255 :=
            \<lparr>velo = 80, channel = 1, future = 3, ts = ts_zero\<rparr>)\<rparr>)) =
     Inr (\<lparr>velo = 80, channel = 1, future = 3, ts = ts_zero\<rparr>, 0, ''P\<newline>H47000202\<newline>'')"
    by code_simp
  have sent90: "observe 60 (setTutorLight (60 AND 255) 90 1 5
        (?s\<lparr>notes := (notes ?s)(60 AND 255 :=
            \<lparr>velo = 90, channel = 1, future = 5, ts = ts_zero\<rparr>)\<rparr>)) =
     Inr (\<lparr>velo = 90, channel = 1, future = 5, ts = ts_zero\<rparr>, 0, ''P\<newline>H47000202\<newline>'')"
    by code_simp
  show ?thesis
    using lose7 lose70 sent3 sent90 by (simp only: win3 win90)
qed

text \<open>
  Claim C5 says that a current claim on a slot that holds a future event always ends
  with the slot overwritten and the counter incremented. It does not when the
  anti-flicker rule applies: on a future event that was marked at time 1 s, the claim
  \<open>addKey 60 80 0 0\<close> at 1.05 s leaves the slot Unused and the counter at 0. The
  state arises on the freshly constructed controller from \<open>addKey(60, 80, 0, 3)\<close> and a
  key press on pitch 60 at 1 s.
\<close>

theorem addKey_current_cleared_again:
  "holds_future (notes (future_tutor 3 \<lparr>tv_sec = 1, tv_nsec = 0\<rparr>) 60) \<and>
   num_curr_events (future_tutor 3 \<lparr>tv_sec = 1, tv_nsec = 0\<rparr>) = 0 \<and>
   observe 60 (addKey 60 80 0 0 \<lparr>tv_sec = 1, tv_nsec = 50000000\<rparr>
                 (future_tutor 3 \<lparr>tv_sec = 1, tv_nsec = 0\<rparr>)) =
     Inr (\<lparr>velo = -1, channel = 0, future = 0, ts = ts_zero\<rparr>, 0,
          ''P\<newline>H47100010\<newline>P\<newline>H47000000\<newline>'') \<and>
   observe 60
     (run [(AddKey 60 80 0 3, ts_zero), (KeyPressed 60 64, \<lparr>tv_sec = 1, tv_nsec = 0\<rparr>),
           (AddKey 60 80 0 0, \<lparr>tv_sec = 1, tv_nsec = 50000000\<rparr>)]
        (Tutor (\<lambda>i. zero_note) attached_device)) =
     Inr (\<lparr>velo = -1, channel = 0, future = 0, ts = ts_zero\<rparr>, 0,
          ''P\<newline>H47020002\<newline>P\<newline>H47100010\<newline>P\<newline>H47000000\<newline>'')"
  by code_simp

text \<open>
  Claim C5, amended: on a slot that holds a future event, a current claim (horizon 0)
  with a positive velocity and a channel other than -1 overwrites the slot and
  increments the counter, whatever the velocities, unless the slot carries a time
  stamp that is less than 100000 microseconds old.
\<close>

theorem addKey_current_displaces_future:
  fixes s :: tutor and pitch vel chan :: int and now :: timespec
  defines "i \<equiv> pitch AND 255"
  defines "n \<equiv> notes s i"
  defines "new \<equiv> \<lparr>velo = vel, channel = chan, future = 0, ts = ts_zero\<rparr>"
  assumes "holds_future n" and "vel > 0" and "chan \<noteq> -1"
    and "\<not> (ts_set (ts n) \<and> diff_us now (ts n) < 100000)"
  shows "addKey pitch vel chan 0 now s =
           setTutorLight i vel chan 0
             (s\<lparr>num_curr_events := num_curr_events s + 1, notes := (notes s)(i := new)\<rparr>) \<and>
         (\<forall>s'. addKey pitch vel chan 0 now s = Inr s' \<longrightarrow>
            notes s' i = new \<and> num_curr_events s' = num_curr_events s + 1)"
proof -
  let ?s1 = "s\<lparr>num_curr_events := num_curr_events s + 1, notes := (notes s)(i := new)\<rparr>"
  have nd: "\<not> (vel = velo n \<and> chan = channel n \<and> 0 = future n)"
    using assms(4) by (simp add: holds_future_def)
  have eq: "addKey pitch vel chan 0 now s = setTutorLight i vel chan 0 ?s1"
    using assms(7)
    by (subst addKey_claim)
       (use assms(4-6) nd in
          \<open>auto simp: arbitrate_displace i_def n_def new_def and_then_def split: sum.splits\<close>)
  have "notes s' i = new \<and> num_curr_events s' = num_curr_events s + 1"
    if "addKey pitch vel chan 0 now s = Inr s'" for s'
    using setTutorLight_notes [of i vel chan 0 ?s1 s'] that eq by simp
  with eq show ?thesis by blast
qed

text \<open>
  A current claim of velocity 20 displaces the future event of velocity 80 that carries
  no time stamp.
\<close>

theorem addKey_current_displaces_future_witness:
  "holds_future (notes (future_tutor 3 ts_zero) (60 AND 255)) \<and>
   observe 60 (addKey 60 20 0 0 \<lparr>tv_sec = 1, tv_nsec = 0\<rparr> (future_tutor 3 ts_zero)) =
     Inr (\<lparr>velo = 20, channel = 0, future = 0, ts = ts_zero\<rparr>, 1, ''P\<newline>H47100010\<newline>'')"
proof -
  let ?s = "future_tutor 3 ts_zero"
  have n: "notes ?s 60 = \<lparr>velo = 80, channel = 0, future = 3, ts = ts_zero\<rparr>"
    by (simp add: future_tutor_def)
  have h1: "holds_future (notes ?s (60 AND 255))"
    by (simp add: n holds_future_def claimed_def)
  have h2: "(20::int) > 0" and h3: "(0::int) \<noteq> -1" by simp_all
  have h4: "\<not> (ts_set (ts (notes ?s (60 AND 255))) \<and>
               diff_us \<lparr>tv_sec = 1, tv_nsec = 0\<rparr> (ts (notes ?s (60 AND 255))) < 100000)"
    by (simp add: n)
  have sent: "observe 60 (setTutorLight (60 AND 255) 20 0 0
        (?s\<lparr>num_curr_events := num_curr_events ?s + 1,
            notes := (notes ?s)(60 AND 255 :=
              \<lparr>velo = 20, channel = 0, future = 0, ts = ts_zero\<rparr>)\<rparr>)) =
     Inr (\<lparr>velo = 20, channel = 0, future = 0, ts = ts_zero\<rparr>, 1, ''P\<newline>H47100010\<newline>'')"
    by code_simp
  from addKey_current_displaces_future [OF h1 h2 h3 h4]
  have "addKey 60 20 0 0 \<lparr>tv_sec = 1, tv_nsec = 0\<rparr> ?s =
      setTutorLight (60 AND 255) 20 0 0
        (?s\<lparr>num_curr_events := num_curr_events ?s + 1,
            notes := (notes ?s)(60 AND 255 :=
              \<lparr>velo = 20, channel = 0, future = 0, ts = ts_zero\<rparr>)\<rparr>)"
    by blast
  with sent h1 show ?thesis by (simp only:) 
qed

text \<open>
  Claim C7 says that any new claim that arrives within 100 ms of the time stamp of a
  future event is cleared again. The code does so only for a current claim: on a
  future event of horizon 5 marked at time 1 s, the future claim of horizon 3 that
  arrives one microsecond later wins and stays, the light is not cleared and the slot
  is not Unused. The state arises on the freshly constructed controller from
  \<open>addKey(60, 80, 0, 5)\<close> and a key press on pitch 60 at 1 s.
\<close>

theorem addKey_future_claim_not_cleared:
  "holds_future (notes (future_tutor 5 \<lparr>tv_sec = 1, tv_nsec = 0\<rparr>) 60) \<and>
   ts_set (ts (notes (future_tutor 5 \<lparr>tv_sec = 1, tv_nsec = 0\<rparr>) 60)) \<and>
   diff_us \<lparr>tv_sec = 1, tv_nsec = 1000\<rparr>
     (ts (notes (future_tutor 5 \<lparr>tv_sec = 1, tv_nsec = 0\<rparr>) 60)) < 100000 \<and>
   observe 60 (addKey 60 80 0 3 \<lparr>tv_sec = 1, tv_nsec = 1000\<rparr>
                 (future_tutor 5 \<lparr>tv_sec = 1, tv_nsec = 0\<rparr>)) =
     Inr (\<lparr>velo = 80, channel = 0, future = 3, ts = ts_zero\<rparr>, 0, ''P\<newline>H47020002\<newline>'') \<and>
   observe 60
     (run [(AddKey 60 80 0 5, ts_zero), (KeyPressed 60 64, \<lparr>tv_sec = 1, tv_nsec = 0\<rparr>),
           (AddKey 60 80 0 3, \<lparr>tv_sec = 1, tv_nsec = 1000\<rparr>)]
        (Tutor (\<lambda>i. zero_note) attached_device)) =
     Inr (\<lparr>velo = 80, channel = 0, future = 3, ts = ts_zero\<rparr>, 0,
          ''P\<newline>H47020002\<newline>P\<newline>H47020002\<newline>'')"
  by code_simp

text \<open>
  Claim C7, amended: when the slot holds a future event with a time stamp, and a
  current claim (horizon 0, positive velocity, channel other than -1) arrives less
  than 100000 microseconds after that time stamp, \<open>addKey\<close> issues the light command
  of the new claim and then the command that clears the light; the counter, first
  incremented, is decremented again, and the slot ends Unused. On a device that
  answers both pings and accepts every write, the wire receives a ping, the command
  that sets the light, a ping and the command that clears it.
\<close>

theorem addKey_anti_flicker:
  fixes s :: tutor and pitch vel chan :: int and now :: timespec
  defines "i \<equiv> pitch AND 255"
  defines "n \<equiv> notes s i"
  defines "new \<equiv> \<lparr>velo = vel, channel = chan, future = 0, ts = ts_zero\<rparr>"
  defines "set_cmd \<equiv> fmt_H (pitchToLight s i) (light_color s chan 0 0)
                        (light_color s chan 0 1) (light_color s chan 0 2)"
  assumes "holds_future n" and "ts_set (ts n)" and "diff_us now (ts n) < 100000"
    and "vel > 0" and "chan \<noteq> -1"
  shows "addKey pitch vel chan 0 now s =
           and_then
             (setTutorLight i vel chan 0
                (s\<lparr>num_curr_events := num_curr_events s + 1, notes := (notes s)(i := new)\<rparr>))
             (\<lambda>s1. and_then (clearTutorLight i s1)
                (\<lambda>s2. Inr (s2\<lparr>num_curr_events := num_curr_events s2 - 1,
                               notes := (notes s2)(i := (notes s2 i)\<lparr>velo := -1\<rparr>)\<rparr>))) \<and>
         (\<forall>s'. addKey pitch vel chan 0 now s = Inr s' \<longrightarrow>
            velo (notes s' i) = -1 \<and> num_curr_events s' = num_curr_events s) \<and>
         (tutorSerial (serial s) \<noteq> INVALID_SERIAL \<and>
          reads (serial s) = ReadByte c1 # ReadByte c2 # rs \<and> writes (serial s) = [] \<and>
          length set_cmd \<le> 14 \<longrightarrow>
            observe i (addKey pitch vel chan 0 now s) =
              Inr (new\<lparr>velo := -1\<rparr>, num_curr_events s,
                   wire (serial s) @ ping_str @ set_cmd @
                     ping_str @ fmt_H (pitchToLight s i) 0 0 0))"
proof -
  let ?s1 = "s\<lparr>num_curr_events := num_curr_events s + 1, notes := (notes s)(i := new)\<rparr>"
  let ?rhs = "and_then (setTutorLight i vel chan 0 ?s1)
             (\<lambda>s1. and_then (clearTutorLight i s1)
                (\<lambda>s2. Inr (s2\<lparr>num_curr_events := num_curr_events s2 - 1,
                               notes := (notes s2)(i := (notes s2 i)\<lparr>velo := -1\<rparr>)\<rparr>)))"
  have nd: "\<not> (vel = velo n \<and> chan = channel n \<and> 0 = future n)"
    using assms(5) by (simp add: holds_future_def)
  have eq: "addKey pitch vel chan 0 now s = ?rhs"
    by (subst addKey_claim)
       (use assms(5-9) nd in \<open>auto simp: arbitrate_displace i_def n_def new_def\<close>)
  have after: "velo (notes s' i) = -1 \<and> num_curr_events s' = num_curr_events s"
    if "addKey pitch vel chan 0 now s = Inr s'" for s'
  proof -
    from that eq obtain s1 s2 where
      1: "setTutorLight i vel chan 0 ?s1 = Inr s1" and
      2: "clearTutorLight i s1 = Inr s2" and
      3: "s' = s2\<lparr>num_curr_events := num_curr_events s2 - 1,
                    notes := (notes s2)(i := (notes s2 i)\<lparr>velo := -1\<rparr>)\<rparr>"
      by (auto simp: and_then_eq_Inr)
    from setTutorLight_notes [OF 1] clearTutorLight_notes [OF 2] 3 show ?thesis by simp
  qed
  have sent: "observe i (addKey pitch vel chan 0 now s) =
              Inr (new\<lparr>velo := -1\<rparr>, num_curr_events s,
                   wire (serial s) @ ping_str @ set_cmd @
                     ping_str @ fmt_H (pitchToLight s i) 0 0 0)"
    if live: "tutorSerial (serial s) \<noteq> INVALID_SERIAL"
       "reads (serial s) = ReadByte c1 # ReadByte c2 # rs" "writes (serial s) = []"
       "length set_cmd \<le> 14"
  proof -
    let ?p1 = "(serial s)\<lparr>reads := ReadByte c2 # rs, wire := wire (serial s) @ ping_str @ set_cmd\<rparr>"
    have 1: "setTutorLight i vel chan 0 ?s1 = Inr (?s1\<lparr>serial := ?p1, needs_flush := True\<rparr>)"
      using setTutorLight_live [of ?s1 c1 "ReadByte c2 # rs" i chan 0 vel] live
      by (simp add: set_cmd_def)
    have 2: "clearTutorLight i (?s1\<lparr>serial := ?p1, needs_flush := True\<rparr>) =
               Inr (?s1\<lparr>serial := ?p1\<lparr>reads := rs,
                       wire := wire ?p1 @ ping_str @ fmt_H (pitchToLight s i) 0 0 0\<rparr>,
                     needs_flush := True\<rparr>)"
      using clearTutorLight_live [of "?s1\<lparr>serial := ?p1, needs_flush := True\<rparr>" c2 rs i] live
      by simp
    show ?thesis
      by (simp add: eq 1 2 observe_def)
  qed
  from eq after sent show ?thesis by blast
qed

theorem addKey_anti_flicker_witness:
  "holds_future (notes (future_tutor 3 \<lparr>tv_sec = 1, tv_nsec = 0\<rparr>) (60 AND 255)) \<and>
   ts_set (ts (notes (future_tutor 3 \<lparr>tv_sec = 1, tv_nsec = 0\<rparr>) (60 AND 255))) \<and>
   diff_us \<lparr>tv_sec = 1, tv_nsec = 50000000\<rparr>
     (ts (notes (future_tutor 3 \<lparr>tv_sec = 1, tv_nsec = 0\<rparr>) (60 AND 255))) < 100000 \<and>
   observe 60 (addKey 60 80 0 0 \<lparr>tv_sec = 1, tv_nsec = 50000000\<rparr>
                 (future_tutor 3 \<lparr>tv_sec = 1, tv_nsec = 0\<rparr>)) =
     Inr (\<lparr>velo = -1, channel = 0, future = 0, ts = ts_zero\<rparr>, 0,
          ''P\<newline>H47100010\<newline>P\<newline>H47000000\<newline>'')"
proof -
  let ?s = "future_tutor 3 \<lparr>tv_sec = 1, tv_nsec = 0\<rparr>"
  let ?now = "\<lparr>tv_sec = 1, tv_nsec = 50000000\<rparr>"
  have h1: "holds_future (notes ?s (60 AND 255))" by code_simp
  have h2: "ts_set (ts (notes ?s (60 AND 255)))" by code_simp
  have h3: "diff_us ?now (ts (notes ?s (60 AND 255))) < 100000" by code_simp
  have h4: "(80::int) > 0" and h5: "(0::int) \<noteq> -1" by simp_all
  have live: "tutorSerial (serial ?s) \<noteq> INVALID_SERIAL \<and>
      reads (serial ?s) = ReadByte (CHR ''P'') # ReadByte (CHR ''P'') # [] \<and>
      writes (serial ?s) = [] \<and>
      length (fmt_H (pitchToLight ?s (60 AND 255)) (light_color ?s 0 0 0)
                (light_color ?s 0 0 1) (light_color ?s 0 0 2)) \<le> 14"
    by code_simp
  from addKey_anti_flicker [OF h1 h2 h3 h4 h5, of "CHR ''P''" "CHR ''P''" "[]"] live
  have "observe (60 AND 255) (addKey 60 80 0 0 ?now ?s) =
      Inr (\<lparr>velo = 80, channel = 0, future = 0, ts = ts_zero\<rparr>\<lparr>velo := -1\<rparr>,
           num_curr_events ?s,
           wire (serial ?s) @ ping_str @
             fmt_H (pitchToLight ?s (60 AND 255)) (light_color ?s 0 0 0)
               (light_color ?s 0 0 1) (light_color ?s 0 0 2) @
             ping_str @ fmt_H (pitchToLight ?s (60 AND 255)) 0 0 0)"
    by blast
  moreover have "wire (serial ?s) @ ping_str @
             fmt_H (pitchToLight ?s (60 AND 255)) (light_color ?s 0 0 0)
               (light_color ?s 0 0 1) (light_color ?s 0 0 2) @
             ping_str @ fmt_H (pitchToLight ?s (60 AND 255)) 0 0 0 =
           ''P\<newline>H47100010\<newline>P\<newline>H47000000\<newline>''"
    by code_simp
  moreover have "num_curr_events ?s = 0" by code_simp
  moreover have "(60::int) AND 255 = 60" by simp
  ultimately show ?thesis using h1 h2 h3 by simp
qed

text \<open>
  Claim C4 says that the second of two identical calls of \<open>addKey\<close> sends nothing, also
  for the channel -1. For the mistake marker the slot stores the velocity -2, so the
  second call is not recognised as a duplicate and sends the light command again.
\<close>

theorem addKey_mistake_twice_sends_twice:
  "observe 60 (addKey 60 80 (-1) 0 ts_zero live_tutor) =
     Inr (\<lparr>velo = -2, channel = 0, future = 0, ts = ts_zero\<rparr>, 0, ''P\<newline>H47100000\<newline>'') \<and>
   observe 60 (and_then (addKey 60 80 (-1) 0 ts_zero live_tutor) (addKey 60 80 (-1) 0 ts_zero)) =
     Inr (\<lparr>velo = -2, channel = 0, future = 0, ts = ts_zero\<rparr>, 0,
          ''P\<newline>H47100000\<newline>P\<newline>H47100000\<newline>'')"
  by code_simp

text \<open>
  Claim C4, amended: for a positive velocity and a channel other than -1, when the
  first of two identical calls of \<open>addKey\<close> is not cleared again by the anti-flicker
  rule, the second call leaves the whole state unchanged and sends nothing.
\<close>

theorem addKey_twice:
  fixes s :: tutor and pitch vel chan fut :: int and now1 now2 :: timespec
  defines "i \<equiv> pitch AND 255"
  defines "n \<equiv> notes s i"
  assumes "vel > 0" and "chan \<noteq> -1"
    and "\<not> (holds_future n \<and> fut = 0 \<and> ts_set (ts n) \<and> diff_us now1 (ts n) < 100000)"
    and "addKey pitch vel chan fut now1 s = Inr s1"
  shows "addKey pitch vel chan fut now2 s1 = Inr s1"
proof (cases "vel = velo n \<and> chan = channel n \<and> fut = future n")
  case True
  then have "addKey pitch vel chan fut now1 s = Inr s"
    using assms(3) by (simp add: addKey_def Let_def n_def i_def)
  with assms(6) have "s1 = s" by simp
  with True show ?thesis
    using assms(3) by (simp add: addKey_def Let_def n_def i_def)
next
  case nd: False
  let ?new = "\<lparr>velo = vel, channel = chan, future = fut, ts = ts_zero\<rparr>"
  note unf = addKey_claim [of vel chan s pitch fut]
  show ?thesis
  proof (cases "arbitrate n vel fut (num_curr_events s)")
    case None
    then have noop: "addKey pitch vel chan fut t s = Inr s" for t
      using assms(3,4) nd by (subst unf) (auto simp: n_def i_def)
    with assms(6) have "s1 = s" by simp
    then show ?thesis using noop by simp
  next
    case (Some a)
    obtain events prev where a: "a = (events, prev)" by (cases a)
    have noflick: "\<not> (ts_set prev \<and> diff_us now1 prev < 100000)"
      using Some a assms(5)
      by (auto simp: arbitrate_def holds_future_def claimed_def split: if_splits)
    have "addKey pitch vel chan fut now1 s =
          setTutorLight i vel chan fut (s\<lparr>num_curr_events := events, notes := (notes s)(i := ?new)\<rparr>)"
      using assms(3,4) nd Some a noflick
      by (subst unf) (auto simp: n_def i_def and_then_def split: sum.splits)
    with assms(6) have "notes s1 i = ?new"
      using setTutorLight_notes [of i vel chan fut "s\<lparr>num_curr_events := events, notes := (notes s)(i := ?new)\<rparr>" s1]
      by simp
    then show ?thesis
      using assms(3) by (simp add: addKey_def Let_def i_def)
  qed
qed

theorem addKey_twice_witness:
  "case addKey 60 80 0 0 ts_zero live_tutor of
     Inl e \<Rightarrow> False
   | Inr s1 \<Rightarrow> wire (serial s1) = ''P\<newline>H47100010\<newline>'' \<and>
              addKey 60 80 0 0 ts_zero s1 = Inr s1"
proof -
  have "observe 60 (addKey 60 80 0 0 ts_zero live_tutor) =
     Inr (\<lparr>velo = 80, channel = 0, future = 0, ts = ts_zero\<rparr>, 1, ''P\<newline>H47100010\<newline>'')"
    by code_simp
  then obtain s1 where s1: "addKey 60 80 0 0 ts_zero live_tutor = Inr s1"
    and w: "wire (serial s1) = ''P\<newline>H47100010\<newline>''"
    by (auto dest: observe_Inr)
  have h1: "(80::int) > 0" and h2: "(0::int) \<noteq> -1" by simp_all
  have h3: "\<not> (holds_future (notes live_tutor (60 AND 255)) \<and> (0::int) = 0 \<and>
       ts_set (ts (notes live_tutor (60 AND 255))) \<and>
       diff_us ts_zero (ts (notes live_tutor (60 AND 255))) < 100000)"
    by code_simp
  from addKey_twice [OF h1 h2 h3 s1, of ts_zero] s1 w show ?thesis by simp
qed

section \<open>pitchToLight and the ranges of values\<close>



text \<open>
  Claim C9 says that an out-of-range colour component is clamped before it is encoded.
  The code does not clamp colour components: after \<open>setColor 1 256 0 0\<close> the light
  command for pitch 60 on channel 0 carries the red field \<open>100\<close> (256 in hexadecimal,
  three digits), not \<open>ff\<close>.
\<close>

theorem color_component_not_clamped:
  "observe 60 (and_then (setColor 1 256 0 0 live_tutor) (addKey 60 80 0 0 ts_zero)) =
     Inr (\<lparr>velo = 80, channel = 0, future = 0, ts = ts_zero\<rparr>, 1, ''P\<newline>H471000000\<newline>'') \<and>
   hex02 256 = ''100'' \<and> hex02 255 = ''ff''"
  by code_simp

text \<open>
  Claim C9, amended: the LED index of every light command is clamped to the interval
  from 0 to 255 and is written with two hexadecimal digits; a pitch is not clamped but
  reduced to its low 8 bits by \<open>addKey\<close>, \<open>clearKey\<close> and \<open>keyPressed\<close>; colour
  components are not clamped: \<open>setColor\<close> stores them as given and \<open>setTutorLight\<close>
  sends them as stored (divided by 8 for a future event); when all stored components
  lie between 0 and 255 no light command overruns its buffer, for any pitch.
\<close>

theorem value_ranges:
  "0 \<le> pitchToLight s pitch \<and> pitchToLight s pitch \<le> 255 \<and>
   length (hex02 (pitchToLight s pitch)) = 2 \<and>
   addKey pitch vel chan fut now s = addKey (pitch AND 255) vel chan fut now s \<and>
   clearKey pitch mark now s = clearKey (pitch AND 255) mark now s \<and>
   keyPressed pitch vel now s = keyPressed (pitch AND 255) vel now s \<and>
   (0 \<le> idx \<and> idx < 3 \<longrightarrow>
      (\<exists>s'. setColor idx r g b s = Inr s' \<and>
            colors s' idx 0 = r \<and> colors s' idx 1 = g \<and> colors s' idx 2 = b)) \<and>
   (tutorSerial (serial s) \<noteq> INVALID_SERIAL \<and> reads (serial s) = ReadByte c # rs \<and>
    writes (serial s) = [] \<and>
    length (fmt_H (pitchToLight s pitch) (light_color s chan fut 0)
              (light_color s chan fut 1) (light_color s chan fut 2)) \<le> 14 \<longrightarrow>
      setTutorLight pitch vel chan fut s =
        Inr (s\<lparr>serial := (serial s)\<lparr>reads := rs,
                  wire := wire (serial s) @ ping_str @
                    fmt_H (pitchToLight s pitch) (light_color s chan fut 0)
                      (light_color s chan fut 1) (light_color s chan fut 2)\<rparr>,
               needs_flush := True\<rparr>)) \<and>
   ((\<forall>i j. 0 \<le> colors s i j \<and> colors s i j \<le> 255) \<longrightarrow>
      setTutorLight pitch vel chan fut s \<noteq> Inl BufferOverrun) \<and>
   clearTutorLight pitch s \<noteq> Inl BufferOverrun \<and>
   setTutorLightPressed pitch s \<noteq> Inl BufferOverrun"
proof -
  have led: "0 \<le> pitchToLight s pitch \<and> pitchToLight s pitch \<le> 255"
    by (rule pitchToLight_range)
  then have digits: "length (hex02 (pitchToLight s pitch)) = 2"
    by (simp add: length_hex02)
  have store: "\<exists>s'. setColor idx r g b s = Inr s' \<and>
            colors s' idx 0 = r \<and> colors s' idx 1 = g \<and> colors s' idx 2 = b"
    if "0 \<le> idx \<and> idx < 3"
    using that by (simp add: setColor_def)
  have sent: "setTutorLight pitch vel chan fut s =
        Inr (s\<lparr>serial := (serial s)\<lparr>reads := rs,
                  wire := wire (serial s) @ ping_str @
                    fmt_H (pitchToLight s pitch) (light_color s chan fut 0)
                      (light_color s chan fut 1) (light_color s chan fut 2)\<rparr>,
               needs_flush := True\<rparr>)"
    if "tutorSerial (serial s) \<noteq> INVALID_SERIAL \<and> reads (serial s) = ReadByte c # rs \<and>
        writes (serial s) = [] \<and>
        length (fmt_H (pitchToLight s pitch) (light_color s chan fut 0)
              (light_color s chan fut 1) (light_color s chan fut 2)) \<le> 14"
    using that by (intro setTutorLight_live) simp_all
  have lit: "setTutorLight pitch vel chan fut s \<noteq> Inl BufferOverrun"
    if "\<forall>i j. 0 \<le> colors s i j \<and> colors s i j \<le> 255"
    using setTutorLight_fault [OF that] by fastforce
  have off: "clearTutorLight pitch s \<noteq> Inl BufferOverrun"
    using clearTutorLight_fault by fastforce
  have pressed: "setTutorLightPressed pitch s \<noteq> Inl BufferOverrun"
    using setTutorLightPressed_fault by fastforce
  show ?thesis
    using led digits store sent lit off pressed
      addKey_low_byte [of pitch vel chan fut now s] clearKey_low_byte [of pitch mark now s]
      keyPressed_low_byte [of pitch vel now s]
    by blast
qed

text \<open>
  Pitch 316 is treated as pitch 60; the LED index of pitch 316 itself is clamped to 0
  and sent as \<open>00\<close>, with the colour of channel 0 as stored; the colour components 300
  and -5 are stored as given; with the default colours the light command does not
  overrun its buffer.
\<close>

theorem value_ranges_witness:
  "0 \<le> pitchToLight live_tutor 316 \<and> pitchToLight live_tutor 316 \<le> 255 \<and>
   addKey 316 80 0 0 ts_zero live_tutor = addKey (316 AND 255) 80 0 0 ts_zero live_tutor \<and>
   (\<exists>s'. setColor 1 300 (-5) 0 live_tutor = Inr s' \<and>
         colors s' 1 0 = 300 \<and> colors s' 1 1 = -5 \<and> colors s' 1 2 = 0) \<and>
   observe 60 (setTutorLight 316 80 0 0 live_tutor) =
     Inr (\<lparr>velo = -1, channel = 0, future = 0, ts = ts_zero\<rparr>, 0, ''P\<newline>H00100010\<newline>'') \<and>
   setTutorLight 316 80 0 0 live_tutor \<noteq> Inl BufferOverrun"
proof -
  have col: "\<forall>i j. 0 \<le> colors live_tutor i j \<and> colors live_tutor i j \<le> 255"
    by (simp add: live_tutor_def Tutor_def def_colors_def)
  have idx: "(0::int) \<le> 1 \<and> (1::int) < 3" by simp
  have live: "tutorSerial (serial live_tutor) \<noteq> INVALID_SERIAL \<and>
      reads (serial live_tutor) = ReadByte (CHR ''P'') # [ReadByte (CHR ''P'')] \<and>
      writes (serial live_tutor) = [] \<and>
      length (fmt_H (pitchToLight live_tutor 316) (light_color live_tutor 0 0 0)
                (light_color live_tutor 0 0 1) (light_color live_tutor 0 0 2)) \<le> 14"
    by code_simp
  note inst = value_ranges [where s = live_tutor and pitch = 316 and vel = 80 and chan = 0
      and fut = 0 and now = ts_zero and idx = 1 and r = 300 and g = "-5" and b = 0
      and c = "CHR ''P''" and rs = "[ReadByte (CHR ''P'')]"]
  from inst live have sent: "setTutorLight 316 80 0 0 live_tutor =
      Inr (live_tutor\<lparr>serial := (serial live_tutor)\<lparr>reads := [ReadByte (CHR ''P'')],
             wire := wire (serial live_tutor) @ ping_str @
               fmt_H (pitchToLight live_tutor 316) (light_color live_tutor 0 0 0)
                 (light_color live_tutor 0 0 1) (light_color live_tutor 0 0 2)\<rparr>,
           needs_flush := True\<rparr>)"
    by blast
  have seen: "observe 60
      (Inr (live_tutor\<lparr>serial := (serial live_tutor)\<lparr>reads := [ReadByte (CHR ''P'')],
             wire := wire (serial live_tutor) @ ping_str @
               fmt_H (pitchToLight live_tutor 316) (light_color live_tutor 0 0 0)
                 (light_color live_tutor 0 0 1) (light_color live_tutor 0 0 2)\<rparr>,
           needs_flush := True\<rparr>)) =
     Inr (\<lparr>velo = -1, channel = 0, future = 0, ts = ts_zero\<rparr>, 0, ''P\<newline>H00100010\<newline>'')"
    by code_simp
  from inst col idx seen show ?thesis
    unfolding sent by blast
qed

section \<open>The counter of current events\<close>

text \<open>
  Claim C1 says that after every sequence of \<open>addKey\<close>, \<open>clearKey\<close> and \<open>keyPressed\<close>
  calls on the freshly constructed controller \<open>num_curr_events\<close> equals the number of
  slots that hold a current event. The code breaks this when a mistake marker is set
  on a slot that holds a current event: \<open>addKey\<close> stores the sentinel -2 without
  decrementing the counter. After \<open>addKey(60, 80, 0, 0)\<close> and \<open>addKey(60, 80, -1, 0)\<close>
  the counter is 1 and no slot holds a current event.
\<close>

theorem mistake_marker_on_current_event:
  "counter_and_count
     (run [(AddKey 60 80 0 0, ts_zero), (AddKey 60 80 (-1) 0, ts_zero)]
        (Tutor (\<lambda>i. zero_note) attached_device)) = Inr (1, 0)"
  by code_simp

text \<open>
  Apart from the mistake marker the counter is right: after every sequence of plain
  calls on the freshly constructed controller that returns, \<open>num_curr_events\<close> equals
  the number of slots that hold a current event.
\<close>

theorem counter_invariant_of_plain_calls:
  assumes "list_all (\<lambda>(c, now). plain_call c) calls"
    and "run calls (Tutor garbage env) = Inr s'"
  shows "num_curr_events s' = int (count_current s')"
  using run_ok [OF Tutor_ok assms] by (simp add: counter_ok_def)

text \<open>
  A current event on pitch 60 that the performer then plays: the counter goes back to
  0, the number of current events.
\<close>

theorem counter_invariant_of_plain_calls_witness:
  "case run [(AddKey 60 80 0 0, ts_zero), (KeyPressed 60 64, ts_zero)]
          (Tutor (\<lambda>i. zero_note) attached_device) of
     Inl e \<Rightarrow> False
   | Inr s' \<Rightarrow> num_curr_events s' = 0 \<and> num_curr_events s' = int (count_current s')"
proof -
  let ?calls = "[(AddKey 60 80 0 0, ts_zero), (KeyPressed 60 64, ts_zero)]"
  have "observe 60 (run ?calls (Tutor (\<lambda>i. zero_note) attached_device)) =
     Inr (\<lparr>velo = -1, channel = 0, future = 0, ts = ts_zero\<rparr>, 0,
          ''P\<newline>H47100010\<newline>P\<newline>H47000000\<newline>'')"
    by code_simp
  then obtain s' where r: "run ?calls (Tutor (\<lambda>i. zero_note) attached_device) = Inr s'"
    and n: "num_curr_events s' = 0"
    by (auto dest: observe_Inr)
  have plain: "list_all (\<lambda>(c, now). plain_call c) ?calls" by simp
  from counter_invariant_of_plain_calls [OF plain r] r n show ?thesis by simp
qed

end
